theory Spec2Isabelle
  imports Main
begin

section \<open>Memory, element objects and the element type\<close>

text \<open>
  The container of \<^verbatim>\<open>vector.h\<close> places objects of an element type \<open>T\<close> into raw blocks
  obtained from \<^verbatim>\<open>operator new\<close>. A block is a list of slots; a slot is either raw
  (uninitialized) memory or holds a live object. The heap is the list of all blocks ever
  allocated, a released block being \<open>None\<close>; the address of a block is its index.
\<close>

datatype 'a slot = Raw | Obj 'a

text \<open>A \<^verbatim>\<open>T*\<close>: the block it points into (\<open>None\<close> for \<^verbatim>\<open>nullptr\<close>) and the slot offset.\<close>

datatype ptr = Ptr (base: "nat option") (off: nat)

datatype op = ValueCtor | ArgsCtor | CopyCtor | MoveCtor | CopyAssign | MoveAssign

text \<open>Where an object lives: in a slot of the heap, or in automatic storage (a local).\<close>

datatype place = Mem ptr | Auto

datatype event =
    Alloc nat nat
  | Free nat
  | Done op place
  | Threw op place
  | Destroyed place

datatype exn = bad_alloc | ElemThrow op | assert_failed

record 'a state =
  heap :: "'a slot list option list"
  budget :: nat
  trace :: "event list"
  leaked :: nat
  fault :: bool

text \<open>
  Sizes, capacities and offsets (\<^verbatim>\<open>size_t\<close>) are natural numbers. A vector whose size
  would overflow \<^verbatim>\<open>size_ * 2\<close> does not fit the address space, and the model does not go
  there. The capacity passed to \<^verbatim>\<open>Reserve\<close> or \<^verbatim>\<open>Resize\<close> is the caller's: there the byte
  count \<^verbatim>\<open>n * sizeof(T)\<close> of the request can wrap around, the model of the allocation
  covers the requests for which it does not (\<open>request_fits\<close>, below), and what is proved
  about an allocation of a capacity of the caller's choice assumes that the request fits.
  A call outside its contract (a position outside \<open>[begin, end]\<close>, \<^verbatim>\<open>Erase\<close> or \<^verbatim>\<open>PopBack\<close>
  on an empty vector) touches a slot that is not in the state the operation needs and sets
  \<open>fault\<close>; what the state holds after a fault is not meant to describe the program.

  \<open>budget\<close> is the number of slots the host allocator can still hand out; \<open>trace\<close> is the
  history of allocator calls and element operations; \<open>leaked\<close> counts the live objects whose
  storage was released without their destructor having run; \<open>fault\<close> records undefined
  behaviour (an operation on a slot that is not in the state the operation needs, a
  release of a block that is not allocated).

  The element type: the two traits the container queries with \<^verbatim>\<open>if constexpr\<close>, its size
  in bytes \<^verbatim>\<open>sizeof(T)\<close>, the state a move leaves its source in, the value of a
  value-initialized object, and which invocation of which operation throws
  (\<open>throws T k n\<close>: the \<open>n\<close>-th invocation of \<open>k\<close> throws, counting from 1). An operation
  that throws has no other effect.
\<close>

record 'a elem_type =
  is_nothrow_move_constructible :: bool
  is_copy_constructible :: bool
  sizeof :: nat
  moved_from :: "'a \<Rightarrow> 'a"
  value_init :: 'a
  throws :: "op \<Rightarrow> nat \<Rightarrow> bool"

definition ptr_add :: "ptr \<Rightarrow> nat \<Rightarrow> ptr" where
  "ptr_add p n = Ptr (base p) (off p + n)"

definition ptr_sub :: "ptr \<Rightarrow> nat \<Rightarrow> ptr" where
  "ptr_sub p n = Ptr (base p) (off p - n)"

definition ptr_diff :: "ptr \<Rightarrow> ptr \<Rightarrow> nat" where
  "ptr_diff p q = off p - off q"

definition slot_at :: "'a state \<Rightarrow> ptr \<Rightarrow> 'a slot option" where
  "slot_at s p =
     (case base p of
        None \<Rightarrow> None
      | Some b \<Rightarrow>
          if b < length (heap s) then
            (case heap s ! b of
               None \<Rightarrow> None
             | Some sl \<Rightarrow> if off p < length sl then Some (sl ! off p) else None)
          else None)"

definition put :: "ptr \<Rightarrow> 'a slot \<Rightarrow> 'a state \<Rightarrow> 'a state" where
  "put p x s =
     (case base p of
        None \<Rightarrow> s
      | Some b \<Rightarrow>
          s\<lparr>heap := (heap s)[b := map_option (\<lambda>sl. sl[off p := x]) (heap s ! b)]\<rparr>)"

definition log :: "event \<Rightarrow> 'a state \<Rightarrow> 'a state" where
  "log e s = s\<lparr>trace := trace s @ [e]\<rparr>"

definition ub :: "'a state \<Rightarrow> 'a state" where
  "ub s = s\<lparr>fault := True\<rparr>"

fun is_call :: "op \<Rightarrow> event \<Rightarrow> bool" where
  "is_call k (Done k' _) = (k' = k)"
| "is_call k (Threw k' _) = (k' = k)"
| "is_call k _ = False"

definition invocations :: "op \<Rightarrow> event list \<Rightarrow> nat" where
  "invocations k tr = length (filter (is_call k) tr)"

fun is_obj :: "'a slot \<Rightarrow> bool" where
  "is_obj (Obj _) = True"
| "is_obj Raw = False"

fun the_obj :: "'a slot \<Rightarrow> 'a option" where
  "the_obj (Obj x) = Some x"
| "the_obj Raw = None"

subsection \<open>Operations on one element\<close>

text \<open>Placement construction \<^verbatim>\<open>new (p) T(...)\<close> by constructor \<open>k\<close>, giving the value \<open>v\<close>.\<close>

definition construct_at :: "'a elem_type \<Rightarrow> op \<Rightarrow> ptr \<Rightarrow> 'a \<Rightarrow> 'a state \<Rightarrow> (exn + unit) \<times> 'a state" where
  "construct_at T k p v s =
     (if throws T k (Suc (invocations k (trace s))) then
        (Inl (ElemThrow k), log (Threw k (Mem p)) s)
      else
        (Inr (),
         (case slot_at s p of
            Some Raw \<Rightarrow> put p (Obj v) (log (Done k (Mem p)) s)
          | _ \<Rightarrow> ub (log (Done k (Mem p)) s))))"

text \<open>Assignment \<^verbatim>\<open>*p = ...\<close> by assignment operator \<open>k\<close>, giving the value \<open>v\<close>.\<close>

definition assign_at :: "'a elem_type \<Rightarrow> op \<Rightarrow> ptr \<Rightarrow> 'a \<Rightarrow> 'a state \<Rightarrow> (exn + unit) \<times> 'a state" where
  "assign_at T k p v s =
     (if throws T k (Suc (invocations k (trace s))) then
        (Inl (ElemThrow k), log (Threw k (Mem p)) s)
      else
        (Inr (),
         (case slot_at s p of
            Some (Obj _) \<Rightarrow> put p (Obj v) (log (Done k (Mem p)) s)
          | _ \<Rightarrow> ub (log (Done k (Mem p)) s))))"

definition copy_construct :: "'a elem_type \<Rightarrow> ptr \<Rightarrow> ptr \<Rightarrow> 'a state \<Rightarrow> (exn + unit) \<times> 'a state" where
  "copy_construct T dst src s =
     (case slot_at s src of
        Some (Obj x) \<Rightarrow> construct_at T CopyCtor dst x s
      | _ \<Rightarrow> (Inr (), ub s))"

definition move_construct :: "'a elem_type \<Rightarrow> ptr \<Rightarrow> ptr \<Rightarrow> 'a state \<Rightarrow> (exn + unit) \<times> 'a state" where
  "move_construct T dst src s =
     (case slot_at s src of
        Some (Obj x) \<Rightarrow>
          (case construct_at T MoveCtor dst x s of
             (Inl e, s') \<Rightarrow> (Inl e, s')
           | (Inr u, s') \<Rightarrow> (Inr u, put src (Obj (moved_from T x)) s'))
      | _ \<Rightarrow> (Inr (), ub s))"

definition copy_assign :: "'a elem_type \<Rightarrow> ptr \<Rightarrow> ptr \<Rightarrow> 'a state \<Rightarrow> (exn + unit) \<times> 'a state" where
  "copy_assign T dst src s =
     (case slot_at s src of
        Some (Obj x) \<Rightarrow> assign_at T CopyAssign dst x s
      | _ \<Rightarrow> (Inr (), ub s))"

definition move_assign :: "'a elem_type \<Rightarrow> ptr \<Rightarrow> ptr \<Rightarrow> 'a state \<Rightarrow> (exn + unit) \<times> 'a state" where
  "move_assign T dst src s =
     (case slot_at s src of
        Some (Obj x) \<Rightarrow>
          (case assign_at T MoveAssign dst x s of
             (Inl e, s') \<Rightarrow> (Inl e, s')
           | (Inr u, s') \<Rightarrow> (Inr u, put src (Obj (moved_from T x)) s'))
      | _ \<Rightarrow> (Inr (), ub s))"

text \<open>\<^verbatim>\<open>std::destroy_at(p)\<close>: the destructor, which does not throw.\<close>

definition destroy_at :: "ptr \<Rightarrow> 'a state \<Rightarrow> 'a state" where
  "destroy_at p s =
     (case slot_at s p of
        Some (Obj _) \<Rightarrow> put p Raw (log (Destroyed (Mem p)) s)
      | _ \<Rightarrow> ub s)"

subsection \<open>The standard algorithms the container calls\<close>

primrec destroy_n :: "ptr \<Rightarrow> nat \<Rightarrow> 'a state \<Rightarrow> 'a state" where
  "destroy_n p 0 s = s"
| "destroy_n p (Suc n) s = destroy_n (ptr_add p 1) n (destroy_at p s)"

text \<open>
  \<^verbatim>\<open>std::uninitialized_copy_n\<close>, \<^verbatim>\<open>std::uninitialized_move_n\<close> and
  \<^verbatim>\<open>std::uninitialized_value_construct_n\<close>: when a construction throws, the objects
  already constructed by the call are destroyed (in an unspecified order; here the
  latest first) and the exception is passed on.
\<close>

primrec uninitialized_copy_n :: "'a elem_type \<Rightarrow> ptr \<Rightarrow> nat \<Rightarrow> ptr \<Rightarrow> 'a state \<Rightarrow> (exn + unit) \<times> 'a state" where
  "uninitialized_copy_n T src 0 dst s = (Inr (), s)"
| "uninitialized_copy_n T src (Suc n) dst s =
     (case copy_construct T dst src s of
        (Inl e, s1) \<Rightarrow> (Inl e, s1)
      | (Inr _, s1) \<Rightarrow>
          (case uninitialized_copy_n T (ptr_add src 1) n (ptr_add dst 1) s1 of
             (Inl e, s2) \<Rightarrow> (Inl e, destroy_at dst s2)
           | (Inr u, s2) \<Rightarrow> (Inr u, s2)))"

primrec uninitialized_move_n :: "'a elem_type \<Rightarrow> ptr \<Rightarrow> nat \<Rightarrow> ptr \<Rightarrow> 'a state \<Rightarrow> (exn + unit) \<times> 'a state" where
  "uninitialized_move_n T src 0 dst s = (Inr (), s)"
| "uninitialized_move_n T src (Suc n) dst s =
     (case move_construct T dst src s of
        (Inl e, s1) \<Rightarrow> (Inl e, s1)
      | (Inr _, s1) \<Rightarrow>
          (case uninitialized_move_n T (ptr_add src 1) n (ptr_add dst 1) s1 of
             (Inl e, s2) \<Rightarrow> (Inl e, destroy_at dst s2)
           | (Inr u, s2) \<Rightarrow> (Inr u, s2)))"

primrec uninitialized_value_construct_n :: "'a elem_type \<Rightarrow> ptr \<Rightarrow> nat \<Rightarrow> 'a state \<Rightarrow> (exn + unit) \<times> 'a state" where
  "uninitialized_value_construct_n T dst 0 s = (Inr (), s)"
| "uninitialized_value_construct_n T dst (Suc n) s =
     (case construct_at T ValueCtor dst (value_init T) s of
        (Inl e, s1) \<Rightarrow> (Inl e, s1)
      | (Inr _, s1) \<Rightarrow>
          (case uninitialized_value_construct_n T (ptr_add dst 1) n s1 of
             (Inl e, s2) \<Rightarrow> (Inl e, destroy_at dst s2)
           | (Inr u, s2) \<Rightarrow> (Inr u, s2)))"

text \<open>
  \<^verbatim>\<open>std::move(first, last, d_first)\<close> over \<open>n = last - first\<close> elements, front to back, and
  \<^verbatim>\<open>std::move_backward(first, last, d_last)\<close>, back to front. An assignment that throws
  ends the loop; nothing is undone.
\<close>

primrec move_n :: "'a elem_type \<Rightarrow> ptr \<Rightarrow> nat \<Rightarrow> ptr \<Rightarrow> 'a state \<Rightarrow> (exn + unit) \<times> 'a state" where
  "move_n T first 0 d_first s = (Inr (), s)"
| "move_n T first (Suc n) d_first s =
     (case move_assign T d_first first s of
        (Inl e, s1) \<Rightarrow> (Inl e, s1)
      | (Inr _, s1) \<Rightarrow> move_n T (ptr_add first 1) n (ptr_add d_first 1) s1)"

primrec move_backward_n :: "'a elem_type \<Rightarrow> ptr \<Rightarrow> nat \<Rightarrow> ptr \<Rightarrow> 'a state \<Rightarrow> (exn + unit) \<times> 'a state" where
  "move_backward_n T first 0 d_last s = (Inr (), s)"
| "move_backward_n T first (Suc n) d_last s =
     (case move_assign T (ptr_sub d_last 1) (ptr_add first n) s of
        (Inl e, s1) \<Rightarrow> (Inl e, s1)
      | (Inr _, s1) \<Rightarrow> move_backward_n T first n (ptr_sub d_last 1) s1)"

section \<open>RawMemory\<close>

text \<open>The members \<^verbatim>\<open>buffer_\<close> and \<^verbatim>\<open>capacity_\<close> (a trailing underscore is not a name here).\<close>

record RawMemory =
  buffer :: "nat option"
  capacity :: nat

text \<open>
  \<^verbatim>\<open>RawMemory::Allocate\<close> asks \<^verbatim>\<open>operator new\<close> for \<^verbatim>\<open>n * sizeof(T)\<close> bytes, a product
  computed in \<^verbatim>\<open>size_t\<close> (64 bits here). A request fits when the product does not exceed
  \<^verbatim>\<open>SIZE_MAX\<close>; one that does not fit wraps around, and the block served is then smaller
  than the \<open>n\<close> slots the owner records as its capacity.
\<close>

definition SIZE_MAX :: nat where
  "SIZE_MAX = 2 ^ 64 - 1"

definition request_fits :: "'a elem_type \<Rightarrow> nat \<Rightarrow> bool" where
  "request_fits T n = (0 < sizeof T \<and> n * sizeof T \<le> SIZE_MAX)"

text \<open>
  \<^verbatim>\<open>Allocate\<close> as it is written, the wrap-around included: \<^verbatim>\<open>operator new\<close> receives the
  product modulo \<open>2 ^ 64\<close>, throws \<^verbatim>\<open>std::bad_alloc\<close> when the host cannot satisfy that, and
  otherwise serves a block with room for as many slots as these bytes hold. A request for
  no slots yields \<^verbatim>\<open>nullptr\<close>.
\<close>

definition Allocate_wrapping :: "'a elem_type \<Rightarrow> nat \<Rightarrow> 'a state \<Rightarrow> (exn + nat option) \<times> 'a state" where
  "Allocate_wrapping T n s =
     (if n \<noteq> 0 then
        (let bytes = (n * sizeof T) mod 2 ^ 64;
             k = bytes div sizeof T
         in if k \<le> budget s then
              (Inr (Some (length (heap s))),
               s\<lparr>heap := heap s @ [Some (replicate k Raw)],
                 budget := budget s - k,
                 trace := trace s @ [Alloc (length (heap s)) k]\<rparr>)
            else (Inl bad_alloc, s))
      else (Inr None, s))"

text \<open>
  What \<^verbatim>\<open>Allocate\<close> does with a request that fits (lemma \<open>Allocate_wrapping_fits\<close> below):
  the block has the \<open>n\<close> slots asked for. This is the allocation the container is modelled
  with. The requests the container makes of its own accord are sizes of a live vector and
  twice such a size; the capacities a caller passes to \<^verbatim>\<open>Reserve\<close> and \<^verbatim>\<open>Resize\<close> are
  assumed to fit where an allocation of them is reasoned about.
\<close>

definition Allocate :: "nat \<Rightarrow> 'a state \<Rightarrow> (exn + nat option) \<times> 'a state" where
  "Allocate n s =
     (if n \<noteq> 0 then
        (if n \<le> budget s then
           (Inr (Some (length (heap s))),
            s\<lparr>heap := heap s @ [Some (replicate n Raw)],
              budget := budget s - n,
              trace := trace s @ [Alloc (length (heap s)) n]\<rparr>)
         else (Inl bad_alloc, s))
      else (Inr None, s))"

text \<open>\<^verbatim>\<open>RawMemory::Deallocate\<close>: \<^verbatim>\<open>operator delete\<close>, a no-op on \<^verbatim>\<open>nullptr\<close>. Objects still alive
  in the block are never destroyed afterwards: they are leaked.\<close>

definition Deallocate :: "nat option \<Rightarrow> 'a state \<Rightarrow> 'a state" where
  "Deallocate buf s =
     (case buf of
        None \<Rightarrow> s
      | Some b \<Rightarrow>
          if b < length (heap s) then
            (case heap s ! b of
               None \<Rightarrow> ub s
             | Some sl \<Rightarrow>
                 s\<lparr>heap := (heap s)[b := None],
                   budget := budget s + length sl,
                   trace := trace s @ [Free b],
                   leaked := leaked s + length (filter is_obj sl)\<rparr>)
          else ub s)"

definition RawMemory_default :: RawMemory where
  "RawMemory_default = \<lparr>buffer = None, capacity = 0\<rparr>"

definition RawMemory_ctor :: "nat \<Rightarrow> 'a state \<Rightarrow> (exn + RawMemory) \<times> 'a state" where
  "RawMemory_ctor n s =
     (case Allocate n s of
        (Inl e, s') \<Rightarrow> (Inl e, s')
      | (Inr b, s') \<Rightarrow> (Inr \<lparr>buffer = b, capacity = n\<rparr>, s'))"

text \<open>The move constructor: the new owner and what is left of \<open>other\<close>.\<close>

definition RawMemory_move_ctor :: "RawMemory \<Rightarrow> RawMemory \<times> RawMemory" where
  "RawMemory_move_ctor other =
     (\<lparr>buffer = buffer other, capacity = capacity other\<rparr>, other\<lparr>buffer := None\<rparr>)"

text \<open>
  The move assignment compares the addresses of its two operands, so the owners live in
  a store (a list, the address of an owner being its index) and the operator takes the
  addresses \<open>this\<close> and \<open>rhs\<close>.
\<close>

definition RawMemory_move_assign :: "nat \<Rightarrow> nat \<Rightarrow> RawMemory list \<Rightarrow> 'a state \<Rightarrow> RawMemory list \<times> 'a state" where
  "RawMemory_move_assign this rhs ms s =
     (if rhs \<noteq> this then
        (let s1 = Deallocate (buffer (ms ! this)) s;
             ms1 = ms[this := (ms ! this)\<lparr>buffer := buffer (ms ! rhs)\<rparr>];
             ms2 = ms1[this := (ms1 ! this)\<lparr>capacity := capacity (ms1 ! rhs)\<rparr>]
         in (ms2, s1))
      else (ms, s))"

definition RawMemory_dtor :: "RawMemory \<Rightarrow> 'a state \<Rightarrow> 'a state" where
  "RawMemory_dtor m s = Deallocate (buffer m) s"

text \<open>\<^verbatim>\<open>operator+\<close> and \<^verbatim>\<open>operator[]\<close> assert their argument against the capacity.\<close>

definition RawMemory_plus :: "RawMemory \<Rightarrow> nat \<Rightarrow> exn + ptr" where
  "RawMemory_plus m offset =
     (if offset \<le> capacity m then Inr (Ptr (buffer m) offset) else Inl assert_failed)"

definition RawMemory_index :: "RawMemory \<Rightarrow> nat \<Rightarrow> exn + ptr" where
  "RawMemory_index m index =
     (if index < capacity m then Inr (Ptr (buffer m) index) else Inl assert_failed)"

definition RawMemory_Swap :: "RawMemory \<Rightarrow> RawMemory \<Rightarrow> RawMemory \<times> RawMemory" where
  "RawMemory_Swap m other = (other, m)"

definition GetAddress :: "RawMemory \<Rightarrow> ptr" where
  "GetAddress m = Ptr (buffer m) 0"

definition RawMemory_Capacity :: "RawMemory \<Rightarrow> nat" where
  "RawMemory_Capacity m = capacity m"

section \<open>Vector\<close>

text \<open>The members \<^verbatim>\<open>size_\<close> and \<^verbatim>\<open>data_\<close>.\<close>

record Vector =
  vsize :: nat
  vdata :: RawMemory

text \<open>
  How the arguments of \<^verbatim>\<open>Emplace\<close> build the new element: by the copy constructor from
  a \<^verbatim>\<open>const T&\<close>, by the move constructor from a \<^verbatim>\<open>T&&\<close>, or by some other constructor.
  In each case the value of the new element is known.
\<close>

datatype 'a args = Args 'a | CopyOf 'a | MoveOf 'a

fun args_op :: "'a args \<Rightarrow> op" where
  "args_op (Args _) = ArgsCtor"
| "args_op (CopyOf _) = CopyCtor"
| "args_op (MoveOf _) = MoveCtor"

fun args_val :: "'a args \<Rightarrow> 'a" where
  "args_val (Args x) = x"
| "args_val (CopyOf x) = x"
| "args_val (MoveOf x) = x"

definition Vector_default :: Vector where
  "Vector_default = \<lparr>vsize = 0, vdata = RawMemory_default\<rparr>"

definition Vector_begin :: "Vector \<Rightarrow> ptr" where
  "Vector_begin v = GetAddress (vdata v)"

definition Vector_end :: "Vector \<Rightarrow> ptr" where
  "Vector_end v = ptr_add (GetAddress (vdata v)) (vsize v)"

definition Vector_cend :: "Vector \<Rightarrow> ptr" where
  "Vector_cend v = ptr_add (GetAddress (vdata v)) (vsize v)"

definition Vector_Size :: "Vector \<Rightarrow> nat" where
  "Vector_Size v = vsize v"

definition Vector_Capacity :: "Vector \<Rightarrow> nat" where
  "Vector_Capacity v = RawMemory_Capacity (vdata v)"

text \<open>\<^verbatim>\<open>Back\<close> indexes with \<^verbatim>\<open>size_ - 1\<close>; on an empty vector this wraps around to the largest
  \<^verbatim>\<open>size_t\<close>, which no capacity exceeds, so the assertion of \<^verbatim>\<open>operator[]\<close> fails.\<close>

definition Back :: "Vector \<Rightarrow> exn + ptr" where
  "Back v = (if vsize v = 0 then Inl assert_failed else RawMemory_index (vdata v) (vsize v - 1))"

definition Vector_Swap :: "Vector \<Rightarrow> Vector \<Rightarrow> Vector \<times> Vector" where
  "Vector_Swap v other =
     (let (d, od) = RawMemory_Swap (vdata v) (vdata other)
      in (\<lparr>vsize = vsize other, vdata = d\<rparr>, \<lparr>vsize = vsize v, vdata = od\<rparr>))"

text \<open>The move constructor swaps with a default-constructed vector, the move assignment
  swaps: each returns the target and what is left in the source.\<close>

definition Vector_move_ctor :: "Vector \<Rightarrow> Vector \<times> Vector" where
  "Vector_move_ctor other = Vector_Swap Vector_default other"

definition Vector_move_assign :: "Vector \<Rightarrow> Vector \<Rightarrow> Vector \<times> Vector" where
  "Vector_move_assign v rhs = Vector_Swap v rhs"

text \<open>\<^verbatim>\<open>Vector(size_t size)\<close> and \<^verbatim>\<open>Vector(const Vector& other)\<close>. When the element
  construction throws, the member \<^verbatim>\<open>data_\<close>, already constructed, is destroyed.\<close>

definition Vector_ctor_n :: "'a elem_type \<Rightarrow> nat \<Rightarrow> 'a state \<Rightarrow> (exn + Vector) \<times> 'a state" where
  "Vector_ctor_n T n s =
     (case RawMemory_ctor n s of
        (Inl e, s1) \<Rightarrow> (Inl e, s1)
      | (Inr d, s1) \<Rightarrow>
          (case uninitialized_value_construct_n T (GetAddress d) n s1 of
             (Inl e, s2) \<Rightarrow> (Inl e, RawMemory_dtor d s2)
           | (Inr _, s2) \<Rightarrow> (Inr \<lparr>vsize = n, vdata = d\<rparr>, s2)))"

definition Vector_copy_ctor :: "'a elem_type \<Rightarrow> Vector \<Rightarrow> 'a state \<Rightarrow> (exn + Vector) \<times> 'a state" where
  "Vector_copy_ctor T other s =
     (case RawMemory_ctor (vsize other) s of
        (Inl e, s1) \<Rightarrow> (Inl e, s1)
      | (Inr d, s1) \<Rightarrow>
          (case uninitialized_copy_n T (GetAddress (vdata other)) (vsize other) (GetAddress d) s1 of
             (Inl e, s2) \<Rightarrow> (Inl e, RawMemory_dtor d s2)
           | (Inr _, s2) \<Rightarrow> (Inr \<lparr>vsize = vsize other, vdata = d\<rparr>, s2)))"

text \<open>\<^verbatim>\<open>~Vector()\<close>, followed by the destructor of the member \<^verbatim>\<open>data_\<close>.\<close>

definition Vector_dtor :: "Vector \<Rightarrow> 'a state \<Rightarrow> 'a state" where
  "Vector_dtor v s = RawMemory_dtor (vdata v) (destroy_n (GetAddress (vdata v)) (vsize v) s)"

definition FillTmpData :: "'a elem_type \<Rightarrow> Vector \<Rightarrow> RawMemory \<Rightarrow> 'a state \<Rightarrow> (exn + unit) \<times> 'a state" where
  "FillTmpData T v d s =
     (if is_nothrow_move_constructible T \<or> \<not> is_copy_constructible T then
        uninitialized_move_n T (GetAddress (vdata v)) (vsize v) (GetAddress d) s
      else
        uninitialized_copy_n T (GetAddress (vdata v)) (vsize v) (GetAddress d) s)"

text \<open>
  The member functions take the vector and the state and return the outcome, the vector
  and the state. An exception that leaves a function destroys its locals on the way: the
  local \<^verbatim>\<open>new_data\<close> releases its block.
\<close>

definition Reserve :: "'a elem_type \<Rightarrow> nat \<Rightarrow> Vector \<Rightarrow> 'a state \<Rightarrow> (exn + unit) \<times> Vector \<times> 'a state" where
  "Reserve T new_capacity v s =
     (if Vector_Capacity v \<ge> new_capacity then (Inr (), v, s)
      else
        (case RawMemory_ctor new_capacity s of
           (Inl e, s1) \<Rightarrow> (Inl e, v, s1)
         | (Inr new_data, s1) \<Rightarrow>
             (case FillTmpData T v new_data s1 of
                (Inl e, s2) \<Rightarrow> (Inl e, v, RawMemory_dtor new_data s2)
              | (Inr _, s2) \<Rightarrow>
                  (let (d, nd) = RawMemory_Swap (vdata v) new_data;
                       v1 = v\<lparr>vdata := d\<rparr>;
                       s3 = destroy_n (GetAddress nd) (vsize v1) s2
                   in (Inr (), v1, RawMemory_dtor nd s3)))))"

definition Resize :: "'a elem_type \<Rightarrow> nat \<Rightarrow> Vector \<Rightarrow> 'a state \<Rightarrow> (exn + unit) \<times> Vector \<times> 'a state" where
  "Resize T new_size v s =
     (if vsize v \<ge> new_size then
        (let s1 = destroy_n (ptr_add (GetAddress (vdata v)) new_size) (vsize v - new_size) s
         in (Inr (), v\<lparr>vsize := new_size\<rparr>, s1))
      else
        (case Reserve T new_size v s of
           (Inl e, v1, s1) \<Rightarrow> (Inl e, v1, s1)
         | (Inr _, v1, s1) \<Rightarrow>
             (case uninitialized_value_construct_n T
                     (ptr_add (GetAddress (vdata v1)) (vsize v1)) (new_size - vsize v1) s1 of
                (Inl e, s2) \<Rightarrow> (Inl e, v1, s2)
              | (Inr _, s2) \<Rightarrow> (Inr (), v1\<lparr>vsize := new_size\<rparr>, s2))))"

text \<open>The local \<^verbatim>\<open>T tmp(args...)\<close> of \<^verbatim>\<open>EasyEmplace\<close> is an automatic object.\<close>

definition construct_auto :: "'a elem_type \<Rightarrow> op \<Rightarrow> 'a state \<Rightarrow> (exn + unit) \<times> 'a state" where
  "construct_auto T k s =
     (if throws T k (Suc (invocations k (trace s))) then
        (Inl (ElemThrow k), log (Threw k Auto) s)
      else (Inr (), log (Done k Auto) s))"

definition EasyEmplace :: "'a elem_type \<Rightarrow> ptr \<Rightarrow> 'a args \<Rightarrow> Vector \<Rightarrow> 'a state \<Rightarrow> (exn + ptr) \<times> Vector \<times> 'a state" where
  "EasyEmplace T pos a v s =
     (if pos \<noteq> Vector_cend v then
        (case construct_auto T (args_op a) s of
           (Inl e, s1) \<Rightarrow> (Inl e, v, s1)
         | (Inr _, s1) \<Rightarrow>
             (case move_construct T (Vector_end v) (ptr_sub (Vector_end v) 1) s1 of
                (Inl e, s2) \<Rightarrow> (Inl e, v, log (Destroyed Auto) s2)
              | (Inr _, s2) \<Rightarrow>
                  (case move_backward_n T pos (ptr_diff (ptr_sub (Vector_end v) 1) pos) (Vector_end v) s2 of
                     (Inl e, s3) \<Rightarrow> (Inl e, v, log (Destroyed Auto) s3)
                   | (Inr _, s3) \<Rightarrow>
                       (case assign_at T MoveAssign pos (args_val a) s3 of
                          (Inl e, s4) \<Rightarrow> (Inl e, v, log (Destroyed Auto) s4)
                        | (Inr _, s4) \<Rightarrow>
                            (Inr pos, v\<lparr>vsize := Suc (vsize v)\<rparr>, log (Destroyed Auto) s4)))))
      else
        (case construct_at T (args_op a) (Vector_end v) (args_val a) s of
           (Inl e, s1) \<Rightarrow> (Inl e, v, s1)
         | (Inr _, s1) \<Rightarrow> (Inr pos, v\<lparr>vsize := Suc (vsize v)\<rparr>, s1)))"

text \<open>The two relocation calls of \<^verbatim>\<open>RealocationEmplace\<close>, under its \<^verbatim>\<open>if constexpr\<close>.\<close>

definition relocate_around :: "'a elem_type \<Rightarrow> Vector \<Rightarrow> nat \<Rightarrow> RawMemory \<Rightarrow> 'a state \<Rightarrow> (exn + unit) \<times> 'a state" where
  "relocate_around T v pos_step new_data s =
     (if is_nothrow_move_constructible T \<or> \<not> is_copy_constructible T then
        (case uninitialized_move_n T (GetAddress (vdata v)) pos_step (GetAddress new_data) s of
           (Inl e, s1) \<Rightarrow> (Inl e, s1)
         | (Inr _, s1) \<Rightarrow>
             uninitialized_move_n T (ptr_add (GetAddress (vdata v)) pos_step) (vsize v - pos_step)
               (ptr_add (ptr_add (GetAddress new_data) pos_step) 1) s1)
      else
        (case uninitialized_copy_n T (GetAddress (vdata v)) pos_step (GetAddress new_data) s of
           (Inl e, s1) \<Rightarrow> (Inl e, s1)
         | (Inr _, s1) \<Rightarrow>
             uninitialized_copy_n T (ptr_add (GetAddress (vdata v)) pos_step) (vsize v - pos_step)
               (ptr_add (ptr_add (GetAddress new_data) pos_step) 1) s1))"

definition RealocationEmplace :: "'a elem_type \<Rightarrow> ptr \<Rightarrow> 'a args \<Rightarrow> Vector \<Rightarrow> 'a state \<Rightarrow> (exn + ptr) \<times> Vector \<times> 'a state" where
  "RealocationEmplace T pos a v s =
     (let pos_step = ptr_diff pos (Vector_begin v) in
      case RawMemory_ctor (if vsize v = 0 then 1 else vsize v * 2) s of
        (Inl e, s1) \<Rightarrow> (Inl e, v, s1)
      | (Inr new_data, s1) \<Rightarrow>
          (case RawMemory_plus new_data pos_step of
             Inl e \<Rightarrow> (Inl e, v, s1)
           | Inr p \<Rightarrow>
               (case construct_at T (args_op a) p (args_val a) s1 of
                  (Inl e, s2) \<Rightarrow> (Inl e, v, RawMemory_dtor new_data s2)
                | (Inr _, s2) \<Rightarrow>
                    (case relocate_around T v pos_step new_data s2 of
                       (Inl e, s3) \<Rightarrow> (Inl e, v, RawMemory_dtor new_data s3)
                     | (Inr _, s3) \<Rightarrow>
                         (let (d, nd) = RawMemory_Swap (vdata v) new_data;
                              v1 = v\<lparr>vdata := d\<rparr>;
                              s4 = destroy_n (GetAddress nd) (vsize v1) s3;
                              v2 = v1\<lparr>vsize := Suc (vsize v1)\<rparr>
                          in (Inr (ptr_add (Vector_begin v2) pos_step), v2, RawMemory_dtor nd s4))))))"

definition Emplace :: "'a elem_type \<Rightarrow> ptr \<Rightarrow> 'a args \<Rightarrow> Vector \<Rightarrow> 'a state \<Rightarrow> (exn + ptr) \<times> Vector \<times> 'a state" where
  "Emplace T pos a v s =
     (if vsize v < Vector_Capacity v then EasyEmplace T pos a v s
      else RealocationEmplace T pos a v s)"

definition EmplaceBack :: "'a elem_type \<Rightarrow> 'a args \<Rightarrow> Vector \<Rightarrow> 'a state \<Rightarrow> (exn + ptr) \<times> Vector \<times> 'a state" where
  "EmplaceBack T a v s =
     (case Emplace T (Vector_end v) a v s of
        (Inl e, v1, s1) \<Rightarrow> (Inl e, v1, s1)
      | (Inr _, v1, s1) \<Rightarrow> (Back v1, v1, s1))"

definition PushBack :: "'a elem_type \<Rightarrow> 'a args \<Rightarrow> Vector \<Rightarrow> 'a state \<Rightarrow> (exn + unit) \<times> Vector \<times> 'a state" where
  "PushBack T a v s =
     (case EmplaceBack T a v s of
        (Inl e, v1, s1) \<Rightarrow> (Inl e, v1, s1)
      | (Inr _, v1, s1) \<Rightarrow> (Inr (), v1, s1))"

definition Insert_copy :: "'a elem_type \<Rightarrow> ptr \<Rightarrow> 'a \<Rightarrow> Vector \<Rightarrow> 'a state \<Rightarrow> (exn + ptr) \<times> Vector \<times> 'a state" where
  "Insert_copy T pos val v s = Emplace T pos (CopyOf val) v s"

definition Insert_move :: "'a elem_type \<Rightarrow> ptr \<Rightarrow> 'a \<Rightarrow> Vector \<Rightarrow> 'a state \<Rightarrow> (exn + ptr) \<times> Vector \<times> 'a state" where
  "Insert_move T pos val v s = Emplace T pos (MoveOf val) v s"

definition Erase :: "'a elem_type \<Rightarrow> ptr \<Rightarrow> Vector \<Rightarrow> 'a state \<Rightarrow> (exn + ptr) \<times> Vector \<times> 'a state" where
  "Erase T pos v s =
     (case move_n T (ptr_add pos 1) (ptr_diff (Vector_end v) (ptr_add pos 1)) pos s of
        (Inl e, s1) \<Rightarrow> (Inl e, v, s1)
      | (Inr _, s1) \<Rightarrow>
          (let s2 = destroy_at (ptr_sub (Vector_end v) 1) s1
           in (Inr pos, v\<lparr>vsize := vsize v - 1\<rparr>, s2)))"

definition PopBack :: "Vector \<Rightarrow> 'a state \<Rightarrow> Vector \<times> 'a state" where
  "PopBack v s =
     (let v1 = v\<lparr>vsize := vsize v - 1\<rparr>
      in (v1, destroy_at (ptr_add (GetAddress (vdata v1)) (vsize v1)) s))"

subsection \<open>Copy assignment\<close>

text \<open>The \<^verbatim>\<open>for\<close> loop of the copy assignment; it returns the final \<open>i\<close>.\<close>

function assign_loop :: "'a elem_type \<Rightarrow> Vector \<Rightarrow> Vector \<Rightarrow> nat \<Rightarrow> 'a state \<Rightarrow> (exn + nat) \<times> 'a state" where
  "assign_loop T v rhs i s =
     (if i < vsize v \<and> i < vsize rhs then
        (case RawMemory_index (vdata v) i of
           Inl e \<Rightarrow> (Inl e, s)
         | Inr dst \<Rightarrow>
             (case RawMemory_index (vdata rhs) i of
                Inl e \<Rightarrow> (Inl e, s)
              | Inr src \<Rightarrow>
                  (case copy_assign T dst src s of
                     (Inl e, s1) \<Rightarrow> (Inl e, s1)
                   | (Inr _, s1) \<Rightarrow> assign_loop T v rhs (Suc i) s1)))
      else (Inr i, s))"
  by pat_completeness auto
termination
  by (relation "measure (\<lambda>(T, v, rhs, i, s). vsize v - i)") auto

text \<open>
  The copy assignment compares the addresses of its operands, so the vectors live in a
  store (a list, the address of a vector being its index) and the operator takes the
  addresses \<open>this\<close> and \<open>rhs\<close>.
\<close>

definition Vector_assign :: "'a elem_type \<Rightarrow> nat \<Rightarrow> nat \<Rightarrow> Vector list \<Rightarrow> 'a state \<Rightarrow> (exn + unit) \<times> Vector list \<times> 'a state" where
  "Vector_assign T this rhs vs s =
     (if this \<noteq> rhs then
        (if vsize (vs ! rhs) > RawMemory_Capacity (vdata (vs ! this)) then
           (case Vector_copy_ctor T (vs ! rhs) s of
              (Inl e, s1) \<Rightarrow> (Inl e, vs, s1)
            | (Inr copy, s1) \<Rightarrow>
                (let (v1, copy1) = Vector_Swap (vs ! this) copy;
                     s2 = Vector_dtor copy1 s1
                 in (Inr (), vs[this := v1\<lparr>vsize := vsize (vs ! rhs)\<rparr>], s2)))
         else
           (case assign_loop T (vs ! this) (vs ! rhs) 0 s of
              (Inl e, s1) \<Rightarrow> (Inl e, vs, s1)
            | (Inr i, s1) \<Rightarrow>
                (if vsize (vs ! rhs) < vsize (vs ! this) then
                   (let s2 = destroy_n (ptr_add (GetAddress (vdata (vs ! this))) i)
                               (vsize (vs ! this) - vsize (vs ! rhs)) s1
                    in (Inr (), vs[this := (vs ! this)\<lparr>vsize := vsize (vs ! rhs)\<rparr>], s2))
                 else
                   (case uninitialized_copy_n T (ptr_add (GetAddress (vdata (vs ! rhs))) i)
                           (vsize (vs ! rhs) - vsize (vs ! this))
                           (ptr_add (GetAddress (vdata (vs ! this))) i) s1 of
                      (Inl e, s2) \<Rightarrow> (Inl e, vs, s2)
                    | (Inr _, s2) \<Rightarrow>
                        (Inr (), vs[this := (vs ! this)\<lparr>vsize := vsize (vs ! rhs)\<rparr>], s2)))))
      else (Inr (), vs, s))"

subsection \<open>The representation invariant and the abstraction\<close>

text \<open>
  A vector is well formed in a state when it owns no block and is empty, or owns an
  allocated block of \<open>capacity\<close> slots whose first \<open>size\<close> slots hold live objects and whose
  other slots are raw. Its elements are the values of the objects in the first \<open>size\<close>
  slots.
\<close>

definition wf :: "Vector \<Rightarrow> 'a state \<Rightarrow> bool" where
  "wf v s =
     (case buffer (vdata v) of
        None \<Rightarrow> capacity (vdata v) = 0 \<and> vsize v = 0
      | Some b \<Rightarrow>
          b < length (heap s) \<and>
          (case heap s ! b of
             None \<Rightarrow> False
           | Some sl \<Rightarrow>
               length sl = capacity (vdata v) \<and> vsize v \<le> capacity (vdata v) \<and>
               list_all is_obj (take (vsize v) sl) \<and>
               drop (vsize v) sl = replicate (capacity (vdata v) - vsize v) Raw))"

definition elems :: "Vector \<Rightarrow> 'a state \<Rightarrow> 'a list" where
  "elems v s =
     (case buffer (vdata v) of
        None \<Rightarrow> []
      | Some b \<Rightarrow>
          (case heap s ! b of
             None \<Rightarrow> []
           | Some sl \<Rightarrow> List.map_filter the_obj (take (vsize v) sl)))"

text \<open>The addresses of the \<open>n\<close> consecutive slots of block \<open>b\<close> from offset \<open>i\<close> on.\<close>

primrec slots_from :: "nat \<Rightarrow> nat \<Rightarrow> nat \<Rightarrow> place list" where
  "slots_from b i 0 = []"
| "slots_from b i (Suc n) = Mem (Ptr (Some b) i) # slots_from b (Suc i) n"

subsection \<open>The relocation policy, the growth policy and element types that never throw\<close>

text \<open>
  The rule as the specification words it: elements are moved into the new storage exactly
  when the move construction of the element type cannot throw or the type cannot be
  copied, and are copied otherwise.
\<close>

definition moves_elements :: "'a elem_type \<Rightarrow> bool" where
  "moves_elements T = (is_nothrow_move_constructible T \<or> \<not> is_copy_constructible T)"

definition relocation_op :: "'a elem_type \<Rightarrow> op" where
  "relocation_op T = (if moves_elements T then MoveCtor else CopyCtor)"

text \<open>What a relocation leaves in the old slots before they are destroyed.\<close>

definition src_after :: "'a elem_type \<Rightarrow> 'a list \<Rightarrow> 'a list" where
  "src_after T xs = (if moves_elements T then map (moved_from T) xs else xs)"

text \<open>The capacity \<^verbatim>\<open>size_ == 0 ? 1 : size_ * 2\<close> of the storage a full vector grows into.\<close>

definition grown :: "nat \<Rightarrow> nat" where
  "grown n = (if n = 0 then 1 else n * 2)"

definition never_throws :: "'a elem_type \<Rightarrow> bool" where
  "never_throws T = (\<forall>k n. \<not> throws T k n)"

subsection \<open>Example element types, vectors and states\<close>

text \<open>An element type like \<^verbatim>\<open>int\<close>: nothing throws, and a move leaves its source as it was.\<close>

definition int_like :: "nat elem_type" where
  "int_like = \<lparr>is_nothrow_move_constructible = True, is_copy_constructible = True,
               sizeof = 4, moved_from = (\<lambda>x. x), value_init = 0, throws = (\<lambda>k n. False)\<rparr>"

text \<open>An element type whose move constructor may throw and whose copy constructor throws on
  its \<open>j\<close>-th invocation.\<close>

definition throwing_copy :: "nat \<Rightarrow> nat elem_type" where
  "throwing_copy j = \<lparr>is_nothrow_move_constructible = False, is_copy_constructible = True,
               sizeof = 4, moved_from = (\<lambda>x. 0), value_init = 0,
               throws = (\<lambda>k n. k = CopyCtor \<and> n = j)\<rparr>"

text \<open>A state whose only block holds \<open>xs\<close> followed by \<open>k\<close> raw slots, and the vector owning it.\<close>

definition state_of :: "nat list \<Rightarrow> nat \<Rightarrow> nat state" where
  "state_of xs k = \<lparr>heap = [Some (map Obj xs @ replicate k Raw)], budget = 100, trace = [],
                     leaked = 0, fault = False\<rparr>"

definition vector_of :: "nat list \<Rightarrow> nat \<Rightarrow> Vector" where
  "vector_of xs k = \<lparr>vsize = length xs, vdata = \<lparr>buffer = Some 0, capacity = length xs + k\<rparr>\<rparr>"

text \<open>The addresses of the \<open>n\<close> slots of a vector's storage from index \<open>i\<close> on.\<close>

definition vslots :: "Vector \<Rightarrow> nat \<Rightarrow> nat \<Rightarrow> place list" where
  "vslots v i n = (case buffer (vdata v) of None \<Rightarrow> [] | Some b \<Rightarrow> slots_from b i n)"

text \<open>An element type whose value-initialization throws on its \<open>j\<close>-th invocation.\<close>

definition throwing_value_init :: "nat \<Rightarrow> nat elem_type" where
  "throwing_value_init j = \<lparr>is_nothrow_move_constructible = True, is_copy_constructible = True,
               sizeof = 4, moved_from = (\<lambda>x. x), value_init = 0,
               throws = (\<lambda>k n. k = ValueCtor \<and> n = j)\<rparr>"

text \<open>
  A client that appends the elements built from \<open>as\<close> one after the other with
  \<^verbatim>\<open>PushBack\<close> and records the capacity after each append; it stops at the first exception.
\<close>

primrec push_all :: "'a elem_type \<Rightarrow> 'a args list \<Rightarrow> Vector \<Rightarrow> 'a state \<Rightarrow> nat list \<times> Vector \<times> 'a state" where
  "push_all T [] v s = ([], v, s)"
| "push_all T (a # as) v s =
     (case PushBack T a v s of
        (Inl e, v1, s1) \<Rightarrow> ([], v1, s1)
      | (Inr u, v1, s1) \<Rightarrow>
          (case push_all T as v1 s1 of
             (cs, v2, s2) \<Rightarrow> (Vector_Capacity v1 # cs, v2, s2)))"

text \<open>A state with nothing allocated yet.\<close>

definition fresh_state :: "nat state" where
  "fresh_state = \<lparr>heap = [], budget = 100, trace = [], leaked = 0, fault = False\<rparr>"

text \<open>The capacities a vector grown from empty by appending passes through: none yet, or
  a power of two that holds the elements and is less than twice their number.\<close>

definition cap_inv :: "Vector \<Rightarrow> bool" where
  "cap_inv v = ((vsize v = 0 \<and> capacity (vdata v) = 0) \<or>
               (\<exists>e. capacity (vdata v) = 2 ^ e \<and> vsize v \<le> capacity (vdata v) \<and>
                    capacity (vdata v) < 2 * vsize v))"

text \<open>The constructor the relocation policy does not select.\<close>

definition other_op :: "'a elem_type \<Rightarrow> op" where
  "other_op T = (if moves_elements T then CopyCtor else MoveCtor)"

text \<open>What becomes of the old storage once its elements are relocated: every old slot is
  destroyed and the block is released (nothing, when there was no block).\<close>

definition release_events :: "Vector \<Rightarrow> event list" where
  "release_events v =
     (case buffer (vdata v) of
        None \<Rightarrow> []
      | Some b \<Rightarrow> map Destroyed (slots_from b 0 (vsize v)) @ [Free b])"

text \<open>Three vectors \<open>[1, 2, 3]\<close> (capacity 4), \<open>[7, 8]\<close> (capacity 2) and \<open>[9]\<close> (capacity 4),
  each with its own block.\<close>

definition three_blocks :: "nat state" where
  "three_blocks = \<lparr>heap = [Some [Obj 1, Obj 2, Obj 3, Raw], Some [Obj 7, Obj 8],
                           Some [Obj 9, Raw, Raw, Raw]],
                   budget = 100, trace = [], leaked = 0, fault = False\<rparr>"

definition three_vectors :: "Vector list" where
  "three_vectors = [\<lparr>vsize = 3, vdata = \<lparr>buffer = Some 0, capacity = 4\<rparr>\<rparr>,
                    \<lparr>vsize = 2, vdata = \<lparr>buffer = Some 1, capacity = 2\<rparr>\<rparr>,
                    \<lparr>vsize = 1, vdata = \<lparr>buffer = Some 2, capacity = 4\<rparr>\<rparr>]"

section \<open>Auxiliary lemmas\<close>

text \<open>On a request that fits, the allocation as written and the one the container is
  modelled with agree; a request that does not fit is served a smaller block.\<close>

lemma Allocate_wrapping_fits:
  assumes "request_fits T n"
  shows "Allocate_wrapping T n s = Allocate n s"
proof -
  from assms have z: "0 < sizeof T" and le: "n * sizeof T \<le> 2 ^ 64 - 1"
    by (simp_all add: request_fits_def SIZE_MAX_def)
  from le have "n * sizeof T < 2 ^ 64" by simp
  then have m: "(n * sizeof T) mod 2 ^ 64 = n * sizeof T" by simp
  from z have d: "n * sizeof T div sizeof T = n" by simp
  have k: "(n * sizeof T) mod 2 ^ 64 div sizeof T = n" by (simp only: m d)
  show ?thesis unfolding Allocate_wrapping_def Allocate_def Let_def k by (rule refl)
qed

lemma Allocate_wrapping_wraps:
  "\<not> request_fits int_like (2 ^ 62 + 1) \<and>
   Allocate_wrapping int_like (2 ^ 62 + 1) fresh_state =
     (Inr (Some 0), \<lparr>heap = [Some [Raw]], budget = 99, trace = [Alloc 0 1],
                       leaked = 0, fault = False\<rparr>)"
  by (simp add: request_fits_def SIZE_MAX_def int_like_def Allocate_wrapping_def fresh_state_def
      Let_def)

lemma slot_at_block:
  "b < length (heap s) \<Longrightarrow> heap s ! b = Some sl \<Longrightarrow>
   slot_at s (Ptr (Some b) i) = (if i < length sl then Some (sl ! i) else None)"
  by (simp add: slot_at_def)

lemma put_block:
  "b < length (heap s) \<Longrightarrow> heap s ! b = Some sl \<Longrightarrow>
   put (Ptr (Some b) i) x s = s\<lparr>heap := (heap s)[b := Some (sl[i := x])]\<rparr>"
  by (simp add: put_def)

lemma heap_same: "heap s ! b = Some sl \<Longrightarrow> s\<lparr>heap := (heap s)[b := Some sl]\<rparr> = s"
  by (metis list_update_id state.surjective state.update_convs(1))

lemma construct_at_ok:
  assumes "\<not> throws T k (Suc (invocations k (trace s)))"
    and "b < length (heap s)" and "heap s ! b = Some (pre @ Raw # post)"
  shows "construct_at T k (Ptr (Some b) (length pre)) v s =
           (Inr (), s\<lparr>heap := (heap s)[b := Some (pre @ Obj v # post)],
                      trace := trace s @ [Done k (Mem (Ptr (Some b) (length pre)))]\<rparr>)"
  using assms by (simp add: construct_at_def slot_at_def put_def log_def)

lemma assign_at_ok:
  assumes "\<not> throws T k (Suc (invocations k (trace s)))"
    and "b < length (heap s)" and "heap s ! b = Some (pre @ Obj y # post)"
  shows "assign_at T k (Ptr (Some b) (length pre)) v s =
           (Inr (), s\<lparr>heap := (heap s)[b := Some (pre @ Obj v # post)],
                      trace := trace s @ [Done k (Mem (Ptr (Some b) (length pre)))]\<rparr>)"
  using assms by (simp add: assign_at_def slot_at_def put_def log_def)

lemma destroy_at_ok:
  assumes "b < length (heap s)" and "heap s ! b = Some (pre @ Obj y # post)"
  shows "destroy_at (Ptr (Some b) (length pre)) s =
           s\<lparr>heap := (heap s)[b := Some (pre @ Raw # post)],
             trace := trace s @ [Destroyed (Mem (Ptr (Some b) (length pre)))]\<rparr>"
  using assms by (simp add: destroy_at_def slot_at_def put_def log_def)

lemma destroy_n_ok:
  assumes "b < length (heap s)" and "heap s ! b = Some (pre @ map Obj xs @ post)"
  shows "destroy_n (Ptr (Some b) (length pre)) (length xs) s =
           s\<lparr>heap := (heap s)[b := Some (pre @ replicate (length xs) Raw @ post)],
             trace := trace s @ map Destroyed (slots_from b (length pre) (length xs))\<rparr>"
  using assms
proof (induction xs arbitrary: pre s)
  case Nil
  then show ?case by (simp add: heap_same)
next
  case (Cons x xs)
  let ?s1 = "destroy_at (Ptr (Some b) (length pre)) s"
  have s1: "?s1 = s\<lparr>heap := (heap s)[b := Some ((pre @ [Raw]) @ map Obj xs @ post)],
             trace := trace s @ [Destroyed (Mem (Ptr (Some b) (length pre)))]\<rparr>"
    using destroy_at_ok[of b s pre x "map Obj xs @ post"] Cons.prems by simp
  have "destroy_n (Ptr (Some b) (length (pre @ [Raw]))) (length xs) ?s1 =
        ?s1\<lparr>heap := (heap ?s1)[b := Some ((pre @ [Raw]) @ replicate (length xs) Raw @ post)],
             trace := trace ?s1 @ map Destroyed (slots_from b (length (pre @ [Raw])) (length xs))\<rparr>"
    by (rule Cons.IH) (use Cons.prems in \<open>simp_all add: s1\<close>)
  then show ?case
    by (simp add: s1 ptr_add_def)
qed


lemma copy_construct_ok:
  assumes "\<not> throws T CopyCtor (Suc (invocations CopyCtor (trace s)))"
    and "bs < length (heap s)" and "heap s ! bs = Some (spre @ Obj x # spost)"
    and "bd < length (heap s)" and "heap s ! bd = Some (pre @ Raw # post)"
  shows "copy_construct T (Ptr (Some bd) (length pre)) (Ptr (Some bs) (length spre)) s =
           (Inr (), s\<lparr>heap := (heap s)[bd := Some (pre @ Obj x # post)],
                      trace := trace s @ [Done CopyCtor (Mem (Ptr (Some bd) (length pre)))]\<rparr>)"
  using assms by (simp add: copy_construct_def slot_at_block construct_at_ok)

lemma uninit_copy_ok:
  assumes "\<forall>n. \<not> throws T CopyCtor n"
    and "bs < length (heap s)" and "heap s ! bs = Some (spre @ map Obj xs @ spost)"
    and "bd < length (heap s)" and "heap s ! bd = Some (pre @ replicate (length xs) Raw @ post)"
    and "bs \<noteq> bd"
  shows "uninitialized_copy_n T (Ptr (Some bs) (length spre)) (length xs) (Ptr (Some bd) (length pre)) s =
           (Inr (), s\<lparr>heap := (heap s)[bd := Some (pre @ map Obj xs @ post)],
                      trace := trace s @ map (Done CopyCtor) (slots_from bd (length pre) (length xs))\<rparr>)"
  using assms
proof (induction xs arbitrary: spre pre s)
  case Nil
  then show ?case by (simp add: heap_same)
next
  case (Cons x xs)
  let ?s1 = "s\<lparr>heap := (heap s)[bd := Some ((pre @ [Obj x]) @ replicate (length xs) Raw @ post)],
                trace := trace s @ [Done CopyCtor (Mem (Ptr (Some bd) (length pre)))]\<rparr>"
  have c: "copy_construct T (Ptr (Some bd) (length pre)) (Ptr (Some bs) (length spre)) s = (Inr (), ?s1)"
    using copy_construct_ok[of T s bs spre x "map Obj xs @ spost" bd pre "replicate (length xs) Raw @ post"]
      Cons.prems by simp
  have "uninitialized_copy_n T (Ptr (Some bs) (length (spre @ [Obj x]))) (length xs)
          (Ptr (Some bd) (length (pre @ [Obj x]))) ?s1 =
        (Inr (), ?s1\<lparr>heap := (heap ?s1)[bd := Some ((pre @ [Obj x]) @ map Obj xs @ post)],
                      trace := trace ?s1 @ map (Done CopyCtor) (slots_from bd (length (pre @ [Obj x])) (length xs))\<rparr>)"
    by (rule Cons.IH) (use Cons.prems in simp_all)
  then show ?case
    by (simp add: c ptr_add_def)
qed

lemma uninit_copy_outcome:
  assumes "bs < length (heap s)" and "heap s ! bs = Some (spre @ map Obj xs @ spost)"
    and "bd < length (heap s)" and "heap s ! bd = Some (pre @ replicate (length xs) Raw @ post)"
    and "bs \<noteq> bd"
  shows "\<exists>es. uninitialized_copy_n T (Ptr (Some bs) (length spre)) (length xs) (Ptr (Some bd) (length pre)) s =
           (Inr (), s\<lparr>heap := (heap s)[bd := Some (pre @ map Obj xs @ post)], trace := trace s @ es\<rparr>) \<or>
         uninitialized_copy_n T (Ptr (Some bs) (length spre)) (length xs) (Ptr (Some bd) (length pre)) s =
           (Inl (ElemThrow CopyCtor), s\<lparr>trace := trace s @ es\<rparr>)"
  using assms
proof (induction xs arbitrary: spre pre s)
  case Nil
  then show ?case by (intro exI[of _ "[]"]) (simp add: heap_same)
next
  case (Cons x xs)
  show ?case
  proof (cases "throws T CopyCtor (Suc (invocations CopyCtor (trace s)))")
    case True
    then have "copy_construct T (Ptr (Some bd) (length pre)) (Ptr (Some bs) (length spre)) s =
        (Inl (ElemThrow CopyCtor), s\<lparr>trace := trace s @ [Threw CopyCtor (Mem (Ptr (Some bd) (length pre)))]\<rparr>)"
      using Cons.prems by (simp add: copy_construct_def slot_at_block construct_at_def log_def)
    then show ?thesis by auto
  next
    case False
    let ?s1 = "s\<lparr>heap := (heap s)[bd := Some ((pre @ [Obj x]) @ replicate (length xs) Raw @ post)],
                trace := trace s @ [Done CopyCtor (Mem (Ptr (Some bd) (length pre)))]\<rparr>"
    have c: "copy_construct T (Ptr (Some bd) (length pre)) (Ptr (Some bs) (length spre)) s = (Inr (), ?s1)"
      using copy_construct_ok[of T s bs spre x "map Obj xs @ spost" bd pre "replicate (length xs) Raw @ post"]
        Cons.prems False by simp
    have "\<exists>es. uninitialized_copy_n T (Ptr (Some bs) (length (spre @ [Obj x]))) (length xs)
          (Ptr (Some bd) (length (pre @ [Obj x]))) ?s1 =
        (Inr (), ?s1\<lparr>heap := (heap ?s1)[bd := Some ((pre @ [Obj x]) @ map Obj xs @ post)],
                      trace := trace ?s1 @ es\<rparr>) \<or>
        uninitialized_copy_n T (Ptr (Some bs) (length (spre @ [Obj x]))) (length xs)
          (Ptr (Some bd) (length (pre @ [Obj x]))) ?s1 =
        (Inl (ElemThrow CopyCtor), ?s1\<lparr>trace := trace ?s1 @ es\<rparr>)"
      by (rule Cons.IH) (use Cons.prems in simp_all)
    then obtain es where
      "uninitialized_copy_n T (Ptr (Some bs) (length (spre @ [Obj x]))) (length xs)
          (Ptr (Some bd) (length (pre @ [Obj x]))) ?s1 =
        (Inr (), ?s1\<lparr>heap := (heap ?s1)[bd := Some ((pre @ [Obj x]) @ map Obj xs @ post)],
                      trace := trace ?s1 @ es\<rparr>) \<or>
        uninitialized_copy_n T (Ptr (Some bs) (length (spre @ [Obj x]))) (length xs)
          (Ptr (Some bd) (length (pre @ [Obj x]))) ?s1 =
        (Inl (ElemThrow CopyCtor), ?s1\<lparr>trace := trace ?s1 @ es\<rparr>)" ..
    then show ?thesis
    proof
      assume ok: "uninitialized_copy_n T (Ptr (Some bs) (length (spre @ [Obj x]))) (length xs)
          (Ptr (Some bd) (length (pre @ [Obj x]))) ?s1 =
        (Inr (), ?s1\<lparr>heap := (heap ?s1)[bd := Some ((pre @ [Obj x]) @ map Obj xs @ post)],
                      trace := trace ?s1 @ es\<rparr>)"
      have "uninitialized_copy_n T (Ptr (Some bs) (length spre)) (length (x # xs)) (Ptr (Some bd) (length pre)) s =
           (Inr (), s\<lparr>heap := (heap s)[bd := Some (pre @ map Obj (x # xs) @ post)],
              trace := trace s @ (Done CopyCtor (Mem (Ptr (Some bd) (length pre))) # es)\<rparr>)"
        using ok by (simp add: c ptr_add_def)
      then show ?thesis by blast
    next
      assume bad: "uninitialized_copy_n T (Ptr (Some bs) (length (spre @ [Obj x]))) (length xs)
          (Ptr (Some bd) (length (pre @ [Obj x]))) ?s1 =
        (Inl (ElemThrow CopyCtor), ?s1\<lparr>trace := trace ?s1 @ es\<rparr>)"
      have d: "destroy_at (Ptr (Some bd) (length pre)) (?s1\<lparr>trace := trace ?s1 @ es\<rparr>) =
          s\<lparr>trace := trace s @ (Done CopyCtor (Mem (Ptr (Some bd) (length pre))) # es @
                 [Destroyed (Mem (Ptr (Some bd) (length pre)))])\<rparr>"
        using destroy_at_ok[of bd "?s1\<lparr>trace := trace ?s1 @ es\<rparr>" pre x "replicate (length xs) Raw @ post"]
          Cons.prems by (simp add: heap_same)
      have "uninitialized_copy_n T (Ptr (Some bs) (length spre)) (length (x # xs)) (Ptr (Some bd) (length pre)) s =
           (Inl (ElemThrow CopyCtor), s\<lparr>trace := trace s @ (Done CopyCtor (Mem (Ptr (Some bd) (length pre))) # es @
                 [Destroyed (Mem (Ptr (Some bd) (length pre)))])\<rparr>)"
        using bad d by (simp add: c ptr_add_def)
      then show ?thesis by blast
    qed
  qed
qed

lemma move_construct_ok:
  assumes "\<not> throws T MoveCtor (Suc (invocations MoveCtor (trace s)))"
    and "bs < length (heap s)" and "heap s ! bs = Some (spre @ Obj x # spost)"
    and "bd < length (heap s)" and "heap s ! bd = Some (pre @ Raw # post)"
    and "bs \<noteq> bd"
  shows "move_construct T (Ptr (Some bd) (length pre)) (Ptr (Some bs) (length spre)) s =
           (Inr (), s\<lparr>heap := (heap s)[bs := Some (spre @ Obj (moved_from T x) # spost),
                                      bd := Some (pre @ Obj x # post)],
                      trace := trace s @ [Done MoveCtor (Mem (Ptr (Some bd) (length pre)))]\<rparr>)"
  using assms by (simp add: move_construct_def slot_at_block construct_at_ok put_block list_update_swap)

lemma heap_same2:
  assumes "heap s ! b = Some sl" and "heap s ! d = Some sl2"
  shows "s\<lparr>heap := (heap s)[b := Some sl, d := Some sl2]\<rparr> = s"
proof -
  have "(heap s)[b := Some sl] = heap s"
    using list_update_id[of "heap s" b] assms(1) by simp
  moreover have "(heap s)[d := Some sl2] = heap s"
    using list_update_id[of "heap s" d] assms(2) by simp
  ultimately show ?thesis by simp
qed

lemma uninit_move_ok:
  assumes "\<forall>n. \<not> throws T MoveCtor n"
    and "bs < length (heap s)" and "heap s ! bs = Some (spre @ map Obj xs @ spost)"
    and "bd < length (heap s)" and "heap s ! bd = Some (pre @ replicate (length xs) Raw @ post)"
    and "bs \<noteq> bd"
  shows "uninitialized_move_n T (Ptr (Some bs) (length spre)) (length xs) (Ptr (Some bd) (length pre)) s =
           (Inr (), s\<lparr>heap := (heap s)[bs := Some (spre @ map (\<lambda>x. Obj (moved_from T x)) xs @ spost),
                                      bd := Some (pre @ map Obj xs @ post)],
                      trace := trace s @ map (Done MoveCtor) (slots_from bd (length pre) (length xs))\<rparr>)"
  using assms
proof (induction xs arbitrary: spre pre s)
  case Nil
  then show ?case by (simp add: heap_same2)
next
  case (Cons x xs)
  let ?s1 = "s\<lparr>heap := (heap s)[bs := Some ((spre @ [Obj (moved_from T x)]) @ map Obj xs @ spost),
                                bd := Some ((pre @ [Obj x]) @ replicate (length xs) Raw @ post)],
                trace := trace s @ [Done MoveCtor (Mem (Ptr (Some bd) (length pre)))]\<rparr>"
  have c: "move_construct T (Ptr (Some bd) (length pre)) (Ptr (Some bs) (length spre)) s = (Inr (), ?s1)"
    using move_construct_ok[of T s bs spre x "map Obj xs @ spost" bd pre "replicate (length xs) Raw @ post"]
      Cons.prems by simp
  have "uninitialized_move_n T (Ptr (Some bs) (length (spre @ [Obj (moved_from T x)]))) (length xs)
          (Ptr (Some bd) (length (pre @ [Obj x]))) ?s1 =
        (Inr (), ?s1\<lparr>heap := (heap ?s1)[bs := Some ((spre @ [Obj (moved_from T x)]) @ map (\<lambda>x. Obj (moved_from T x)) xs @ spost),
                                        bd := Some ((pre @ [Obj x]) @ map Obj xs @ post)],
                      trace := trace ?s1 @ map (Done MoveCtor) (slots_from bd (length (pre @ [Obj x])) (length xs))\<rparr>)"
    by (rule Cons.IH) (use Cons.prems in simp_all)
  then show ?case
    using Cons.prems(6) by (simp add: c ptr_add_def list_update_swap[of bd bs])
qed

lemma value_construct_ok:
  assumes "\<forall>n. \<not> throws T ValueCtor n"
    and "bd < length (heap s)" and "heap s ! bd = Some (pre @ replicate n Raw @ post)"
  shows "uninitialized_value_construct_n T (Ptr (Some bd) (length pre)) n s =
           (Inr (), s\<lparr>heap := (heap s)[bd := Some (pre @ replicate n (Obj (value_init T)) @ post)],
                      trace := trace s @ map (Done ValueCtor) (slots_from bd (length pre) n)\<rparr>)"
  using assms
proof (induction n arbitrary: pre s)
  case 0
  then show ?case by (simp add: heap_same)
next
  case (Suc n)
  let ?s1 = "s\<lparr>heap := (heap s)[bd := Some ((pre @ [Obj (value_init T)]) @ replicate n Raw @ post)],
                trace := trace s @ [Done ValueCtor (Mem (Ptr (Some bd) (length pre)))]\<rparr>"
  have c: "construct_at T ValueCtor (Ptr (Some bd) (length pre)) (value_init T) s = (Inr (), ?s1)"
    using construct_at_ok[of T ValueCtor s bd pre "replicate n Raw @ post" "value_init T"] Suc.prems by simp
  have "uninitialized_value_construct_n T (Ptr (Some bd) (length (pre @ [Obj (value_init T)]))) n ?s1 =
        (Inr (), ?s1\<lparr>heap := (heap ?s1)[bd := Some ((pre @ [Obj (value_init T)]) @ replicate n (Obj (value_init T)) @ post)],
                      trace := trace ?s1 @ map (Done ValueCtor) (slots_from bd (length (pre @ [Obj (value_init T)])) n)\<rparr>)"
    by (rule Suc.IH) (use Suc.prems in simp_all)
  then show ?case
    by (simp add: c ptr_add_def)
qed

lemma move_assign_ok:
  assumes "\<not> throws T MoveAssign (Suc (invocations MoveAssign (trace s)))"
    and "b < length (heap s)" and "heap s ! b = Some sl"
    and "i < length sl" and "sl ! i = Obj y" and "j < length sl" and "sl ! j = Obj x"
  shows "move_assign T (Ptr (Some b) i) (Ptr (Some b) j) s =
           (Inr (), s\<lparr>heap := (heap s)[b := Some (sl[i := Obj x, j := Obj (moved_from T x)])],
                      trace := trace s @ [Done MoveAssign (Mem (Ptr (Some b) i))]\<rparr>)"
  using assms by (simp add: move_assign_def slot_at_block assign_at_def put_def log_def)

text \<open>\<^verbatim>\<open>std::move\<close> to the left by one slot, within one block.\<close>

lemma move_n_ok:
  assumes "\<forall>n. \<not> throws T MoveAssign n"
    and "b < length (heap s)" and "heap s ! b = Some (pre @ Obj y # map Obj xs @ post)"
  shows "move_n T (Ptr (Some b) (Suc (length pre))) (length xs) (Ptr (Some b) (length pre)) s =
           (Inr (), s\<lparr>heap := (heap s)[b := Some (pre @ map Obj xs @
                                   Obj (if xs = [] then y else moved_from T (last xs)) # post)],
                      trace := trace s @ map (Done MoveAssign) (slots_from b (length pre) (length xs))\<rparr>)"
  using assms
proof (induction xs arbitrary: pre y s)
  case Nil
  then show ?case by (simp add: heap_same)
next
  case (Cons x xs)
  let ?sl = "pre @ Obj y # map Obj (x # xs) @ post"
  let ?s1 = "s\<lparr>heap := (heap s)[b := Some ((pre @ [Obj x]) @ Obj (moved_from T x) # map Obj xs @ post)],
                trace := trace s @ [Done MoveAssign (Mem (Ptr (Some b) (length pre)))]\<rparr>"
  have upd: "?sl[length pre := Obj x, Suc (length pre) := Obj (moved_from T x)] =
             (pre @ [Obj x]) @ Obj (moved_from T x) # map Obj xs @ post"
    by (simp add: list_update_append)
  have c: "move_assign T (Ptr (Some b) (length pre)) (Ptr (Some b) (Suc (length pre))) s = (Inr (), ?s1)"
    using move_assign_ok[of T s b ?sl "length pre" y "Suc (length pre)" x] Cons.prems upd
    by (simp add: nth_append)
  have "move_n T (Ptr (Some b) (Suc (length (pre @ [Obj x])))) (length xs) (Ptr (Some b) (length (pre @ [Obj x]))) ?s1 =
           (Inr (), ?s1\<lparr>heap := (heap ?s1)[b := Some ((pre @ [Obj x]) @ map Obj xs @
                                   Obj (if xs = [] then moved_from T x else moved_from T (last xs)) # post)],
                      trace := trace ?s1 @ map (Done MoveAssign) (slots_from b (length (pre @ [Obj x])) (length xs))\<rparr>)"
    by (rule Cons.IH) (use Cons.prems in simp_all)
  then show ?case
    by (simp add: c ptr_add_def)
qed

lemma slots_from_snoc: "slots_from b i (Suc n) = slots_from b i n @ [Mem (Ptr (Some b) (i + n))]"
  by (induction n arbitrary: i) simp_all

text \<open>\<^verbatim>\<open>std::move_backward\<close> to the right by one slot, within one block.\<close>

lemma move_backward_ok:
  assumes "\<forall>n. \<not> throws T MoveAssign n"
    and "b < length (heap s)" and "heap s ! b = Some (pre @ map Obj xs @ Obj z # post)"
  shows "move_backward_n T (Ptr (Some b) (length pre)) (length xs) (Ptr (Some b) (Suc (length pre + length xs))) s =
           (Inr (), s\<lparr>heap := (heap s)[b := Some (pre @
                                   Obj (if xs = [] then z else moved_from T (hd xs)) # map Obj xs @ post)],
                      trace := trace s @ map (Done MoveAssign) (rev (slots_from b (Suc (length pre)) (length xs)))\<rparr>)"
  using assms
proof (induction xs arbitrary: z post s rule: rev_induct)
  case Nil
  then show ?case by (simp add: heap_same)
next
  case (snoc x xs)
  let ?sl = "pre @ map Obj (xs @ [x]) @ Obj z # post"
  let ?n = "length pre + length xs"
  let ?s1 = "s\<lparr>heap := (heap s)[b := Some (pre @ map Obj xs @ Obj (moved_from T x) # (Obj x # post))],
                trace := trace s @ [Done MoveAssign (Mem (Ptr (Some b) (Suc ?n)))]\<rparr>"
  have sl: "?sl = (pre @ map Obj xs) @ Obj x # Obj z # post" by simp
  have upd: "?sl[Suc ?n := Obj x, ?n := Obj (moved_from T x)] =
             pre @ map Obj xs @ Obj (moved_from T x) # (Obj x # post)"
    unfolding sl by (simp add: list_update_append)
  have n1: "?sl ! Suc ?n = Obj z" unfolding sl by (simp add: nth_append)
  have n2: "?sl ! ?n = Obj x" unfolding sl by (simp add: nth_append)
  have c: "move_assign T (Ptr (Some b) (Suc ?n)) (Ptr (Some b) ?n) s = (Inr (), ?s1)"
    using move_assign_ok[of T s b ?sl "Suc ?n" z ?n x] snoc.prems upd n1 n2
    by simp
  have "move_backward_n T (Ptr (Some b) (length pre)) (length xs) (Ptr (Some b) (Suc (length pre + length xs))) ?s1 =
           (Inr (), ?s1\<lparr>heap := (heap ?s1)[b := Some (pre @
                                   Obj (if xs = [] then moved_from T x else moved_from T (hd xs)) # map Obj xs @ (Obj x # post))],
                      trace := trace ?s1 @ map (Done MoveAssign) (rev (slots_from b (Suc (length pre)) (length xs)))\<rparr>)"
    by (rule snoc.IH) (use snoc.prems in simp_all)
  then show ?case
    by (simp add: c ptr_add_def ptr_sub_def slots_from_snoc del: slots_from.simps(2))
qed

lemma all_obj_map:
  "list_all is_obj xs \<Longrightarrow> map Obj (List.map_filter the_obj xs) = xs"
proof (induction xs)
  case Nil
  then show ?case by (simp add: List.map_filter_simps)
next
  case (Cons x xs)
  then show ?case by (cases x) (simp_all add: List.map_filter_simps)
qed

lemma map_filter_Obj: "List.map_filter the_obj (map Obj xs) = xs"
  by (induction xs) (simp_all add: List.map_filter_simps)

lemma wf_block:
  assumes "wf v s" and "buffer (vdata v) = Some b"
  shows "b < length (heap s)"
    and "heap s ! b = Some (map Obj (elems v s) @ replicate (capacity (vdata v) - vsize v) Raw)"
    and "length (elems v s) = vsize v"
    and "vsize v \<le> capacity (vdata v)"
proof -
  from assms obtain sl where b: "b < length (heap s)" and sl: "heap s ! b = Some sl"
    and len: "length sl = capacity (vdata v)" and le: "vsize v \<le> capacity (vdata v)"
    and objs: "list_all is_obj (take (vsize v) sl)"
    and raws: "drop (vsize v) sl = replicate (capacity (vdata v) - vsize v) Raw"
    by (auto simp: wf_def split: option.splits)
  have e: "elems v s = List.map_filter the_obj (take (vsize v) sl)"
    using assms(2) sl by (simp add: elems_def)
  have m: "map Obj (elems v s) = take (vsize v) sl"
    unfolding e using objs by (rule all_obj_map)
  have "sl = take (vsize v) sl @ drop (vsize v) sl" by simp
  then have "sl = map Obj (elems v s) @ replicate (capacity (vdata v) - vsize v) Raw"
    using m raws by simp
  then show "heap s ! b = Some (map Obj (elems v s) @ replicate (capacity (vdata v) - vsize v) Raw)"
    using sl by simp
  have "length (map Obj (elems v s)) = length (take (vsize v) sl)" using m by simp
  then show "length (elems v s) = vsize v" using len le by simp
  show "b < length (heap s)" by (rule b)
  show "vsize v \<le> capacity (vdata v)" by (rule le)
qed

lemma wf_null:
  assumes "wf v s" and "buffer (vdata v) = None"
  shows "vsize v = 0" and "capacity (vdata v) = 0" and "elems v s = []"
  using assms by (simp_all add: wf_def elems_def)

lemma wf_intro:
  assumes "buffer (vdata v) = Some b" and "b < length (heap s)"
    and "heap s ! b = Some (map Obj xs @ replicate k Raw)"
    and "vsize v = length xs" and "capacity (vdata v) = length xs + k"
  shows "wf v s" and "elems v s = xs"
  using assms by (simp_all add: wf_def elems_def list_all_iff map_filter_Obj)

lemma length_elems: "wf v s \<Longrightarrow> length (elems v s) = vsize v"
  by (cases "buffer (vdata v)") (simp_all add: wf_null wf_block)


lemma length_src_after [simp]: "length (src_after T xs) = length xs"
  by (simp add: src_after_def)

lemma uninit_reloc_ok:
  assumes "\<forall>n. \<not> throws T (relocation_op T) n"
    and "bs < length (heap s)" and "heap s ! bs = Some (spre @ map Obj xs @ spost)"
    and "bd < length (heap s)" and "heap s ! bd = Some (pre @ replicate (length xs) Raw @ post)"
    and "bs \<noteq> bd" and "i = length spre" and "j = length pre" and "n = length xs"
  shows "(if is_nothrow_move_constructible T \<or> \<not> is_copy_constructible T
          then uninitialized_move_n T (Ptr (Some bs) i) n (Ptr (Some bd) j) s
          else uninitialized_copy_n T (Ptr (Some bs) i) n (Ptr (Some bd) j) s) =
           (Inr (), s\<lparr>heap := (heap s)[bs := Some (spre @ map Obj (src_after T xs) @ spost),
                                      bd := Some (pre @ map Obj xs @ post)],
                      trace := trace s @ map (Done (relocation_op T)) (slots_from bd j n)\<rparr>)"
proof (cases "moves_elements T")
  case True
  then have "\<forall>n. \<not> throws T MoveCtor n" using assms(1) by (simp add: relocation_op_def)
  from uninit_move_ok[OF this assms(2-6)] True assms(7-9) show ?thesis
    by (simp add: moves_elements_def[symmetric] relocation_op_def src_after_def comp_def)
next
  case False
  then have "\<forall>n. \<not> throws T CopyCtor n" using assms(1) by (simp add: relocation_op_def)
  moreover have "(heap s)[bs := Some (spre @ map Obj xs @ spost)] = heap s"
    using list_update_id[of "heap s" bs] assms(3) by simp
  ultimately show ?thesis
    using uninit_copy_ok[OF _ assms(2-6), of T] False assms(7-9)
    by (simp add: moves_elements_def[symmetric] relocation_op_def src_after_def)
qed

lemma destroy_n_ok':
  assumes "b < length (heap s)" and "heap s ! b = Some (pre @ map Obj xs @ post)"
    and "i = length pre" and "n = length xs"
  shows "destroy_n (Ptr (Some b) i) n s =
           s\<lparr>heap := (heap s)[b := Some (pre @ replicate n Raw @ post)],
             trace := trace s @ map Destroyed (slots_from b i n)\<rparr>"
  using destroy_n_ok[OF assms(1,2)] assms(3,4) by simp

lemma Reserve_grows:
  assumes wf: "wf v s" and gt: "capacity (vdata v) < n" and bud: "n \<le> budget s"
    and nt: "\<forall>k. \<not> throws T (relocation_op T) k"
  shows "\<exists>s'. Reserve T n v s = (Inr (), v\<lparr>vdata := \<lparr>buffer = Some (length (heap s)), capacity = n\<rparr>\<rparr>, s') \<and>
           wf (v\<lparr>vdata := \<lparr>buffer = Some (length (heap s)), capacity = n\<rparr>\<rparr>) s' \<and>
           elems (v\<lparr>vdata := \<lparr>buffer = Some (length (heap s)), capacity = n\<rparr>\<rparr>) s' = elems v s \<and>
           trace s' = trace s @ Alloc (length (heap s)) n #
               map (Done (relocation_op T)) (slots_from (length (heap s)) 0 (vsize v)) @
               (case buffer (vdata v) of None \<Rightarrow> []
                | Some b \<Rightarrow> map Destroyed (slots_from b 0 (vsize v)) @ [Free b]) \<and>
           length (heap s') = Suc (length (heap s)) \<and>
           budget s' = budget s - n + capacity (vdata v) \<and>
           leaked s' = leaked s \<and> fault s' = fault s"
proof -
  let ?d = "length (heap s)"
  let ?nd = "\<lparr>buffer = Some ?d, capacity = n\<rparr>"
  let ?s1 = "s\<lparr>heap := heap s @ [Some (replicate n Raw)], budget := budget s - n,
               trace := trace s @ [Alloc ?d n]\<rparr>"
  have n0: "n \<noteq> 0" using gt by simp
  have ctor: "RawMemory_ctor n s = (Inr ?nd, ?s1)"
    using n0 bud by (simp add: RawMemory_ctor_def Allocate_def)
  show ?thesis
  proof (cases "buffer (vdata v)")
    case None
    note wn = wf_null[OF wf None]
    have fill: "FillTmpData T v ?nd ?s1 = (Inr (), ?s1)"
      using wn by (simp add: FillTmpData_def)
    have r: "Reserve T n v s = (Inr (), v\<lparr>vdata := ?nd\<rparr>, ?s1)"
      using gt wn None
      by (simp add: Reserve_def Vector_Capacity_def RawMemory_Capacity_def ctor fill
          RawMemory_Swap_def RawMemory_dtor_def Deallocate_def GetAddress_def)
    have w: "wf (v\<lparr>vdata := ?nd\<rparr>) ?s1" "elems (v\<lparr>vdata := ?nd\<rparr>) ?s1 = []"
      using wf_intro[of "v\<lparr>vdata := ?nd\<rparr>" ?d ?s1 "[]" n] wn by simp_all
    show ?thesis
      using r w wn None by simp
  next
    case (Some b)
    note wb = wf_block[OF wf Some]
    let ?xs = "elems v s"
    let ?k = "capacity (vdata v) - vsize v"
    have bd: "b \<noteq> ?d" using wb(1) by simp
    have len: "length ?xs = vsize v" by (rule wb(3))
    have src1: "heap ?s1 ! b = Some ([] @ map Obj ?xs @ replicate ?k Raw)"
      using wb by (simp add: nth_append)
    have dst1: "heap ?s1 ! ?d = Some ([] @ replicate (length ?xs) Raw @ replicate (n - vsize v) Raw)"
      using wb gt by (simp add: nth_append len flip: replicate_add)
    let ?s2 = "?s1\<lparr>heap := (heap ?s1)[b := Some ([] @ map Obj (src_after T ?xs) @ replicate ?k Raw),
                                      ?d := Some ([] @ map Obj ?xs @ replicate (n - vsize v) Raw)],
                    trace := trace ?s1 @ map (Done (relocation_op T)) (slots_from ?d 0 (vsize v))\<rparr>"
    have "FillTmpData T v ?nd ?s1 =
       (if is_nothrow_move_constructible T \<or> \<not> is_copy_constructible T
          then uninitialized_move_n T (Ptr (Some b) 0) (vsize v) (Ptr (Some ?d) 0) ?s1
          else uninitialized_copy_n T (Ptr (Some b) 0) (vsize v) (Ptr (Some ?d) 0) ?s1)"
      by (simp add: FillTmpData_def GetAddress_def Some)
    also have "\<dots> = (Inr (), ?s2)"
      by (rule uninit_reloc_ok[OF nt _ src1 _ dst1 bd]) (use wb(1) len in simp_all)
    finally have fill: "FillTmpData T v ?nd ?s1 = (Inr (), ?s2)" .
    have src2: "heap ?s2 ! b = Some ([] @ map Obj (src_after T ?xs) @ replicate ?k Raw)"
      using wb bd by (simp add: nth_append)
    let ?s3 = "?s2\<lparr>heap := (heap ?s2)[b := Some ([] @ replicate (vsize v) Raw @ replicate ?k Raw)],
                 trace := trace ?s2 @ map Destroyed (slots_from b 0 (vsize v))\<rparr>"
    have "destroy_n (Ptr (Some b) 0) (vsize v) ?s2 = ?s3"
      by (rule destroy_n_ok'[OF _ src2]) (use wb in simp_all)
    then have r: "Reserve T n v s = (Inr (), v\<lparr>vdata := ?nd\<rparr>, RawMemory_dtor (vdata v) ?s3)"
      using gt Some
      by (simp add: Reserve_def Vector_Capacity_def RawMemory_Capacity_def ctor fill
        RawMemory_Swap_def GetAddress_def len)
    show ?thesis
      unfolding r using wb bd Some len
        wf_intro[of "v\<lparr>vdata := ?nd\<rparr>" ?d _ ?xs "n - vsize v"] gt
      by (simp add: RawMemory_dtor_def Deallocate_def nth_append)
  qed
qed

lemma src_after_append: "src_after T (xs @ ys) = src_after T xs @ src_after T ys"
  by (simp add: src_after_def)

lemma reloc_move_ok:
  assumes "moves_elements T" and "\<forall>n. \<not> throws T (relocation_op T) n"
    and "bs < length (heap s)" and "heap s ! bs = Some (spre @ map Obj xs @ spost)"
    and "bd < length (heap s)" and "heap s ! bd = Some (pre @ replicate (length xs) Raw @ post)"
    and "bs \<noteq> bd" and "src = Ptr (Some bs) (length spre)" and "dst = Ptr (Some bd) (length pre)"
    and "n = length xs"
  shows "uninitialized_move_n T src n dst s =
           (Inr (), s\<lparr>heap := (heap s)[bs := Some (spre @ map Obj (src_after T xs) @ spost),
                                      bd := Some (pre @ map Obj xs @ post)],
                      trace := trace s @ map (Done (relocation_op T)) (slots_from bd (length pre) n)\<rparr>)"
  using uninit_reloc_ok[OF assms(2-7) refl refl refl] assms(1,8-10)
  by (simp add: moves_elements_def)

lemma reloc_copy_ok:
  assumes "\<not> moves_elements T" and "\<forall>n. \<not> throws T (relocation_op T) n"
    and "bs < length (heap s)" and "heap s ! bs = Some (spre @ map Obj xs @ spost)"
    and "bd < length (heap s)" and "heap s ! bd = Some (pre @ replicate (length xs) Raw @ post)"
    and "bs \<noteq> bd" and "src = Ptr (Some bs) (length spre)" and "dst = Ptr (Some bd) (length pre)"
    and "n = length xs"
  shows "uninitialized_copy_n T src n dst s =
           (Inr (), s\<lparr>heap := (heap s)[bs := Some (spre @ map Obj (src_after T xs) @ spost),
                                      bd := Some (pre @ map Obj xs @ post)],
                      trace := trace s @ map (Done (relocation_op T)) (slots_from bd (length pre) n)\<rparr>)"
  using uninit_reloc_ok[OF assms(2-7) refl refl refl] assms(1,8-10)
  by (simp add: moves_elements_def)

lemma relocate_around_step_move:
  assumes "moves_elements T"
    and "uninitialized_move_n T (GetAddress (vdata v)) p (GetAddress nd) s = (Inr (), s1)"
    and "uninitialized_move_n T (ptr_add (GetAddress (vdata v)) p) (vsize v - p)
           (ptr_add (ptr_add (GetAddress nd) p) 1) s1 = (Inr (), s2)"
  shows "relocate_around T v p nd s = (Inr (), s2)"
  using assms by (simp add: relocate_around_def moves_elements_def)

lemma relocate_around_step_copy:
  assumes "\<not> moves_elements T"
    and "uninitialized_copy_n T (GetAddress (vdata v)) p (GetAddress nd) s = (Inr (), s1)"
    and "uninitialized_copy_n T (ptr_add (GetAddress (vdata v)) p) (vsize v - p)
           (ptr_add (ptr_add (GetAddress nd) p) 1) s1 = (Inr (), s2)"
  shows "relocate_around T v p nd s = (Inr (), s2)"
  using assms by (simp add: relocate_around_def moves_elements_def)

lemma relocate_around_ok:
  assumes nt: "\<forall>n. \<not> throws T (relocation_op T) n"
    and b: "b < length (heap s)" and src: "heap s ! b = Some (map Obj as @ map Obj bs @ spost)"
    and d: "d < length (heap s)"
    and dst: "heap s ! d = Some (replicate (length as) Raw @ Obj x # replicate (length bs) Raw @ post)"
    and ne: "b \<noteq> d" and bv: "buffer (vdata v) = Some b" and bn: "buffer nd = Some d"
    and sz: "vsize v = length as + length bs" and p: "p = length as"
  shows "relocate_around T v p nd s =
          (Inr (), s\<lparr>heap := (heap s)[b := Some (map Obj (src_after T (as @ bs)) @ spost),
                                     d := Some (map Obj (as @ x # bs) @ post)],
                     trace := trace s @ map (Done (relocation_op T)) (slots_from d 0 p) @
                              map (Done (relocation_op T)) (slots_from d (Suc p) (length bs))\<rparr>)"
proof -
  let ?s1 = "s\<lparr>heap := (heap s)[b := Some ([] @ map Obj (src_after T as) @ (map Obj bs @ spost)),
                               d := Some ([] @ map Obj as @ (Obj x # replicate (length bs) Raw @ post))],
                trace := trace s @ map (Done (relocation_op T)) (slots_from d (length ([]::'a slot list)) p)\<rparr>"
  let ?s2 = "?s1\<lparr>heap := (heap ?s1)[b := Some (map Obj (src_after T as) @ map Obj (src_after T bs) @ spost),
                               d := Some ((map Obj as @ [Obj x]) @ map Obj bs @ post)],
                trace := trace ?s1 @ map (Done (relocation_op T)) (slots_from d (length (map Obj as @ [Obj x])) (vsize v - p))\<rparr>"
  have src0: "heap s ! b = Some ([] @ map Obj as @ (map Obj bs @ spost))" using src by simp
  have dst0: "heap s ! d = Some ([] @ replicate (length as) Raw @ (Obj x # replicate (length bs) Raw @ post))"
    using dst by simp
  have src1: "heap ?s1 ! b = Some (map Obj (src_after T as) @ map Obj bs @ spost)"
    using b d ne by simp
  have dst1: "heap ?s1 ! d = Some ((map Obj as @ [Obj x]) @ replicate (length bs) Raw @ post)"
    using b d ne by simp
  have fin: "?s2 = s\<lparr>heap := (heap s)[b := Some (map Obj (src_after T (as @ bs)) @ spost),
                                     d := Some (map Obj (as @ x # bs) @ post)],
                     trace := trace s @ map (Done (relocation_op T)) (slots_from d 0 p) @
                              map (Done (relocation_op T)) (slots_from d (Suc p) (length bs))\<rparr>"
    using ne p sz by (simp add: src_after_append list_update_swap[of d b])
  have "relocate_around T v p nd s = (Inr (), ?s2)"
  proof (cases "moves_elements T")
    case True
    show ?thesis
    proof (rule relocate_around_step_move[OF True])
      show "uninitialized_move_n T (GetAddress (vdata v)) p (GetAddress nd) s = (Inr (), ?s1)"
        by (rule reloc_move_ok[OF True nt b src0 d dst0 ne]) (simp_all add: GetAddress_def bv bn p)
      show "uninitialized_move_n T (ptr_add (GetAddress (vdata v)) p) (vsize v - p)
           (ptr_add (ptr_add (GetAddress nd) p) 1) ?s1 = (Inr (), ?s2)"
        by (rule reloc_move_ok[OF True nt _ src1 _ dst1 ne])
           (use b d in \<open>simp_all add: GetAddress_def ptr_add_def bv bn p sz\<close>)
    qed
  next
    case False
    show ?thesis
    proof (rule relocate_around_step_copy[OF False])
      show "uninitialized_copy_n T (GetAddress (vdata v)) p (GetAddress nd) s = (Inr (), ?s1)"
        by (rule reloc_copy_ok[OF False nt b src0 d dst0 ne]) (simp_all add: GetAddress_def bv bn p)
      show "uninitialized_copy_n T (ptr_add (GetAddress (vdata v)) p) (vsize v - p)
           (ptr_add (ptr_add (GetAddress nd) p) 1) ?s1 = (Inr (), ?s2)"
        by (rule reloc_copy_ok[OF False nt _ src1 _ dst1 ne])
           (use b d in \<open>simp_all add: GetAddress_def ptr_add_def bv bn p sz\<close>)
    qed
  qed
  then show ?thesis unfolding fin .
qed


lemma construct_at_ok':
  assumes "\<not> throws T k (Suc (invocations k (trace s)))"
    and "b < length (heap s)" and "heap s ! b = Some (pre @ Raw # post)" and "p = Ptr (Some b) (length pre)"
  shows "construct_at T k p v s =
           (Inr (), s\<lparr>heap := (heap s)[b := Some (pre @ Obj v # post)],
                      trace := trace s @ [Done k (Mem p)]\<rparr>)"
  using construct_at_ok[OF assms(1-3)] assms(4) by simp

lemma RealocationEmplace_step:
  assumes "RawMemory_ctor (if vsize v = 0 then 1 else vsize v * 2) s = (Inr nd, s1)"
    and "ptr_diff pos (Vector_begin v) = p" and "p \<le> capacity nd"
    and "construct_at T (args_op a) (Ptr (buffer nd) p) (args_val a) s1 = (Inr (), s2)"
    and "relocate_around T v p nd s2 = (Inr (), s3)"
  shows "RealocationEmplace T pos a v s =
           (Inr (Ptr (buffer nd) p), \<lparr>vsize = Suc (vsize v), vdata = nd\<rparr>,
            RawMemory_dtor (vdata v) (destroy_n (GetAddress (vdata v)) (vsize v) s3))"
  using assms
  by (simp add: RealocationEmplace_def RawMemory_plus_def RawMemory_Swap_def Vector_begin_def
      GetAddress_def ptr_add_def)

lemma RealocationEmplace_ok:
  assumes wf: "wf v s" and full: "vsize v = capacity (vdata v)" and p: "p \<le> vsize v"
    and pos: "pos = ptr_add (Vector_begin v) p"
    and bud: "grown (vsize v) \<le> budget s"
    and nta: "\<forall>k. \<not> throws T (args_op a) k"
    and nt: "\<forall>k. \<not> throws T (relocation_op T) k"
  shows "\<exists>s'. RealocationEmplace T pos a v s =
            (Inr (Ptr (Some (length (heap s))) p),
             \<lparr>vsize = Suc (vsize v), vdata = \<lparr>buffer = Some (length (heap s)), capacity = grown (vsize v)\<rparr>\<rparr>, s') \<and>
           wf \<lparr>vsize = Suc (vsize v), vdata = \<lparr>buffer = Some (length (heap s)), capacity = grown (vsize v)\<rparr>\<rparr> s' \<and>
           elems \<lparr>vsize = Suc (vsize v), vdata = \<lparr>buffer = Some (length (heap s)), capacity = grown (vsize v)\<rparr>\<rparr> s' =
             take p (elems v s) @ args_val a # drop p (elems v s) \<and>
           trace s' = trace s @ Alloc (length (heap s)) (grown (vsize v)) #
               Done (args_op a) (Mem (Ptr (Some (length (heap s))) p)) #
               map (Done (relocation_op T)) (slots_from (length (heap s)) 0 p) @
               map (Done (relocation_op T)) (slots_from (length (heap s)) (Suc p) (vsize v - p)) @
               (case buffer (vdata v) of None \<Rightarrow> []
                | Some b \<Rightarrow> map Destroyed (slots_from b 0 (vsize v)) @ [Free b]) \<and>
           length (heap s') = Suc (length (heap s)) \<and>
           budget s' = budget s - grown (vsize v) + capacity (vdata v) \<and>
           leaked s' = leaked s \<and> fault s' = fault s"
proof -
  let ?d = "length (heap s)"
  let ?n = "grown (vsize v)"
  let ?nd = "\<lparr>buffer = Some ?d, capacity = ?n\<rparr>"
  let ?v' = "\<lparr>vsize = Suc (vsize v), vdata = ?nd\<rparr>"
  let ?s1 = "s\<lparr>heap := heap s @ [Some (replicate ?n Raw)], budget := budget s - ?n,
               trace := trace s @ [Alloc ?d ?n]\<rparr>"
  let ?xs = "elems v s"
  let ?as = "take p ?xs"
  let ?bs = "drop p ?xs"
  let ?x = "args_val a"
  let ?post = "replicate (?n - Suc (vsize v)) (Raw :: 'a slot)"
  have len: "length ?xs = vsize v" using wf by (rule length_elems)
  have la: "length ?as = p" using len p by simp
  have lb: "length ?bs = vsize v - p" using len by simp
  have n0: "?n \<noteq> 0" and ngt: "vsize v < ?n" by (simp_all add: grown_def)
  have ctor: "RawMemory_ctor (if vsize v = 0 then 1 else vsize v * 2) s = (Inr ?nd, ?s1)"
    using n0 bud by (simp add: RawMemory_ctor_def Allocate_def grown_def)
  have pd: "ptr_diff pos (Vector_begin v) = p"
    by (simp add: pos ptr_diff_def ptr_add_def Vector_begin_def GetAddress_def)
  have ple: "p \<le> capacity ?nd" using p ngt by simp
  have rep: "replicate ?n (Raw :: 'a slot) = replicate p Raw @ Raw # replicate (vsize v - p) Raw @ ?post"
  proof -
    have "?n = p + Suc ((vsize v - p) + (?n - Suc (vsize v)))" using p ngt by simp
    then have "replicate ?n (Raw :: 'a slot) = replicate (p + Suc ((vsize v - p) + (?n - Suc (vsize v)))) Raw"
      by simp
    then show ?thesis by (simp only: replicate_add replicate_Suc)
  qed
  let ?s2 = "?s1\<lparr>heap := (heap ?s1)[?d := Some (replicate p Raw @ Obj ?x # replicate (vsize v - p) Raw @ ?post)],
                  trace := trace ?s1 @ [Done (args_op a) (Mem (Ptr (Some ?d) p))]\<rparr>"
  have "construct_at T (args_op a) (Ptr (Some ?d) p) ?x ?s1 = (Inr (), ?s2)"
    by (rule construct_at_ok'[where pre = "replicate p Raw"]) (simp_all add: nta rep)
  then have c: "construct_at T (args_op a) (Ptr (buffer ?nd) p) ?x ?s1 = (Inr (), ?s2)"
    by simp
  show ?thesis
  proof (cases "buffer (vdata v)")
    case None
    note wn = wf_null[OF wf None]
    have p0: "p = 0" using p wn by simp
    have rel: "relocate_around T v p ?nd ?s2 = (Inr (), ?s2)"
      using wn p0 by (simp add: relocate_around_def)
    have r: "RealocationEmplace T pos a v s = (Inr (Ptr (buffer ?nd) p), ?v',
            RawMemory_dtor (vdata v) (destroy_n (GetAddress (vdata v)) (vsize v) ?s2))"
      by (rule RealocationEmplace_step[OF ctor pd ple c rel])
    have s': "RawMemory_dtor (vdata v) (destroy_n (GetAddress (vdata v)) (vsize v) ?s2) = ?s2"
      using wn None by (simp add: RawMemory_dtor_def Deallocate_def)
    have hd: "heap ?s2 ! ?d = Some (map Obj [?x] @ replicate (?n - 1) Raw)"
      using wn p0 by simp
    have w: "wf ?v' ?s2" "elems ?v' ?s2 = [?x]"
      using wf_intro[of ?v' ?d ?s2 "[?x]" "?n - 1", OF _ _ hd] wn n0 by simp_all
    show ?thesis
      unfolding r s' using w wn None p0 by simp
  next
    case (Some b)
    note wb = wf_block[OF wf Some]
    have bd: "b \<noteq> ?d" using wb(1) by simp
    have xs: "?xs = ?as @ ?bs" by simp
    have src2: "heap ?s2 ! b = Some (map Obj ?as @ map Obj ?bs @ [])"
      using wb bd full by (simp add: nth_append flip: map_append)
    have dst2: "heap ?s2 ! ?d = Some (replicate (length ?as) Raw @ Obj ?x # replicate (length ?bs) Raw @ ?post)"
      using len p by (simp add: min_absorb2)
    let ?s3 = "?s2\<lparr>heap := (heap ?s2)[b := Some (map Obj (src_after T (?as @ ?bs)) @ []),
                                     ?d := Some (map Obj (?as @ ?x # ?bs) @ ?post)],
                     trace := trace ?s2 @ map (Done (relocation_op T)) (slots_from ?d 0 p) @
                              map (Done (relocation_op T)) (slots_from ?d (Suc p) (length ?bs))\<rparr>"
    have rel: "relocate_around T v p ?nd ?s2 = (Inr (), ?s3)"
      by (rule relocate_around_ok[OF nt _ src2 _ dst2 bd Some])
         (use wb(1) la lb p in simp_all)
    have r: "RealocationEmplace T pos a v s = (Inr (Ptr (buffer ?nd) p), ?v',
            RawMemory_dtor (vdata v) (destroy_n (GetAddress (vdata v)) (vsize v) ?s3))"
      by (rule RealocationEmplace_step[OF ctor pd ple c rel])
    have src3: "heap ?s3 ! b = Some ([] @ map Obj (src_after T ?xs) @ [])"
      using wb(1) bd by simp
    let ?s4 = "?s3\<lparr>heap := (heap ?s3)[b := Some ([] @ replicate (vsize v) Raw @ [])],
                     trace := trace ?s3 @ map Destroyed (slots_from b 0 (vsize v))\<rparr>"
    have d4: "destroy_n (GetAddress (vdata v)) (vsize v) ?s3 = ?s4"
      unfolding GetAddress_def Some
      by (rule destroy_n_ok'[OF _ src3]) (use wb(1) len in simp_all)
    have hd: "heap ?s4 ! ?d = Some (map Obj (?as @ ?x # ?bs) @ ?post)"
      using wb(1) bd by simp
    have lf: "length (filter is_obj (replicate (vsize v) (Raw :: 'a slot))) = 0" by simp
    show ?thesis
      unfolding r d4 using wb(1) bd Some len la lb lf ngt p
        wf_intro[of ?v' ?d "RawMemory_dtor (vdata v) ?s4" "?as @ ?x # ?bs" "?n - Suc (vsize v)"]
      by (simp add: RawMemory_dtor_def Deallocate_def nth_append full)
  qed
qed

lemma move_construct_same:
  assumes "\<not> throws T MoveCtor (Suc (invocations MoveCtor (trace s)))"
    and "b < length (heap s)" and "heap s ! b = Some (pre @ Obj x # Raw # post)"
    and "src = Ptr (Some b) (length pre)" and "dst = Ptr (Some b) (Suc (length pre))"
  shows "move_construct T dst src s =
           (Inr (), s\<lparr>heap := (heap s)[b := Some (pre @ Obj (moved_from T x) # Obj x # post)],
                      trace := trace s @ [Done MoveCtor (Mem dst)]\<rparr>)"
proof -
  have 1: "(pre @ Obj x # Raw # post) ! Suc (length pre) = Raw"
    by (simp add: nth_append)
  have 2: "(pre @ Obj x # Raw # post)[Suc (length pre) := Obj x, length pre := Obj (moved_from T x)] =
        pre @ Obj (moved_from T x) # Obj x # post"
    by (simp add: list_update_append)
  show ?thesis
    using assms 1 2
    by (simp add: move_construct_def slot_at_block construct_at_def put_def log_def)
qed

lemma move_backward_ok':
  assumes "\<forall>n. \<not> throws T MoveAssign n"
    and "b < length (heap s)" and "heap s ! b = Some (pre @ map Obj xs @ Obj z # post)"
    and "first = Ptr (Some b) (length pre)" and "n = length xs"
    and "d_last = Ptr (Some b) (Suc (length pre + length xs))"
  shows "move_backward_n T first n d_last s =
           (Inr (), s\<lparr>heap := (heap s)[b := Some (pre @
                                   Obj (if xs = [] then z else moved_from T (hd xs)) # map Obj xs @ post)],
                      trace := trace s @ map (Done MoveAssign) (rev (slots_from b (Suc (length pre)) n))\<rparr>)"
  using move_backward_ok[OF assms(1-3)] assms(4-6) by simp

lemma assign_at_ok':
  assumes "\<not> throws T k (Suc (invocations k (trace s)))"
    and "b < length (heap s)" and "heap s ! b = Some (pre @ Obj y # post)"
    and "p = Ptr (Some b) (length pre)"
  shows "assign_at T k p v s =
           (Inr (), s\<lparr>heap := (heap s)[b := Some (pre @ Obj v # post)],
                      trace := trace s @ [Done k (Mem p)]\<rparr>)"
  using assign_at_ok[OF assms(1-3)] assms(4) by simp

lemma EasyEmplace_step_mid:
  assumes "pos \<noteq> Vector_cend v"
    and "construct_auto T (args_op a) s = (Inr (), s1)"
    and "move_construct T (Vector_end v) (ptr_sub (Vector_end v) 1) s1 = (Inr (), s2)"
    and "move_backward_n T pos (ptr_diff (ptr_sub (Vector_end v) 1) pos) (Vector_end v) s2 = (Inr (), s3)"
    and "assign_at T MoveAssign pos (args_val a) s3 = (Inr (), s4)"
  shows "EasyEmplace T pos a v s = (Inr pos, v\<lparr>vsize := Suc (vsize v)\<rparr>, log (Destroyed Auto) s4)"
  using assms by (simp add: EasyEmplace_def)

lemma EasyEmplace_step_end:
  assumes "pos = Vector_cend v"
    and "construct_at T (args_op a) (Vector_end v) (args_val a) s = (Inr (), s1)"
  shows "EasyEmplace T pos a v s = (Inr pos, v\<lparr>vsize := Suc (vsize v)\<rparr>, s1)"
  using assms by (simp add: EasyEmplace_def)

lemma EasyEmplace_ok:
  assumes wf: "wf v s" and room: "vsize v < capacity (vdata v)" and p: "p \<le> vsize v"
    and pos: "pos = ptr_add (Vector_begin v) p"
    and nt: "never_throws T"
  shows "\<exists>s'. EasyEmplace T pos a v s = (Inr pos, v\<lparr>vsize := Suc (vsize v)\<rparr>, s') \<and>
           wf (v\<lparr>vsize := Suc (vsize v)\<rparr>) s' \<and>
           elems (v\<lparr>vsize := Suc (vsize v)\<rparr>) s' = take p (elems v s) @ args_val a # drop p (elems v s) \<and>
           trace s' = trace s @
             (if p = vsize v then [Done (args_op a) (Mem pos)]
              else Done (args_op a) Auto # Done MoveCtor (Mem (Vector_end v)) #
                   map (Done MoveAssign) (rev (slots_from (the (buffer (vdata v))) (Suc p) (vsize v - Suc p))) @
                   [Done MoveAssign (Mem pos), Destroyed Auto]) \<and>
           length (heap s') = length (heap s) \<and> budget s' = budget s \<and>
           leaked s' = leaked s \<and> fault s' = fault s"
proof -
  from wf room obtain b where Some: "buffer (vdata v) = Some b"
    by (cases "buffer (vdata v)") (auto simp: wf_def)
  note wb = wf_block[OF wf Some]
  let ?xs = "elems v s"
  let ?as = "take p ?xs"
  let ?bs = "drop p ?xs"
  let ?x = "args_val a"
  let ?k = "capacity (vdata v) - Suc (vsize v)"
  let ?v' = "v\<lparr>vsize := Suc (vsize v)\<rparr>"
  have len: "length ?xs = vsize v" by (rule wb(3))
  have la: "length ?as = p" using len p by simp
  have posb: "pos = Ptr (Some b) p"
    by (simp add: pos ptr_add_def Vector_begin_def GetAddress_def Some)
  have endb: "Vector_end v = Ptr (Some b) (vsize v)" "Vector_cend v = Ptr (Some b) (vsize v)"
    by (simp_all add: Vector_end_def Vector_cend_def ptr_add_def GetAddress_def Some)
  have raws: "replicate (capacity (vdata v) - vsize v) (Raw :: 'a slot) = Raw # replicate ?k Raw"
    using room by (metis Suc_diff_Suc replicate_Suc)
  have nts: "\<And>k n. \<not> throws T k n" using nt by (simp add: never_throws_def)
  show ?thesis
  proof (cases "p = vsize v")
    case True
    have blk: "heap s ! b = Some (map Obj ?xs @ Raw # replicate ?k Raw)"
      using wb(2) raws by simp
    let ?s1 = "s\<lparr>heap := (heap s)[b := Some (map Obj ?xs @ Obj ?x # replicate ?k Raw)],
                  trace := trace s @ [Done (args_op a) (Mem (Vector_end v))]\<rparr>"
    have c: "construct_at T (args_op a) (Vector_end v) ?x s = (Inr (), ?s1)"
      by (rule construct_at_ok'[OF _ wb(1) blk]) (simp_all add: nts endb len)
    have r: "EasyEmplace T pos a v s = (Inr pos, ?v', ?s1)"
      by (rule EasyEmplace_step_end[OF _ c]) (simp add: posb endb True)
    have hb: "heap ?s1 ! b = Some (map Obj (?xs @ [?x]) @ replicate ?k Raw)"
      using wb(1) by simp
    have w: "wf ?v' ?s1" "elems ?v' ?s1 = ?xs @ [?x]"
      using wf_intro[of ?v' b ?s1 "?xs @ [?x]" ?k, OF _ _ hb] Some wb(1) len room by simp_all
    show ?thesis
      unfolding r using w True len posb endb by simp
  next
    case False
    then have plt: "p < vsize v" using p by simp
    have "drop p ?xs \<noteq> []" using plt len by simp
    then have "drop p ?xs = butlast (drop p ?xs) @ [last (drop p ?xs)]"
      by (rule append_butlast_last_id[symmetric])
    then have "?xs = take p ?xs @ butlast (drop p ?xs) @ [last (drop p ?xs)]"
      by (metis append_take_drop_id)
    moreover have "length (take p ?xs) = p" using len p by simp
    ultimately obtain as ms l where dec: "?xs = as @ ms @ [l]" and la: "length as = p"
      by blast
    have lm: "length ms = vsize v - Suc p" using len dec la by simp
    have td: "take p ?xs = as" "drop p ?xs = ms @ [l]" using dec la by simp_all
    let ?s1 = "log (Done (args_op a) Auto) s"
    have "heap s ! b = Some (map Obj (as @ ms @ [l]) @ Raw # replicate ?k Raw)"
      using wb(2) raws dec by simp
    then have hs1: "heap ?s1 ! b = Some ((map Obj as @ map Obj ms) @ Obj l # Raw # replicate ?k Raw)"
      by (simp add: log_def)
    have c1: "construct_auto T (args_op a) s = (Inr (), ?s1)"
      by (simp add: construct_auto_def nts)
    have sz: "vsize v = Suc (length (map Obj as @ map Obj ms))"
      using la lm plt by simp
    let ?s2 = "?s1\<lparr>heap := (heap ?s1)[b := Some ((map Obj as @ map Obj ms) @ Obj (moved_from T l) # Obj l # replicate ?k Raw)],
                    trace := trace ?s1 @ [Done MoveCtor (Mem (Vector_end v))]\<rparr>"
    have c2: "move_construct T (Vector_end v) (ptr_sub (Vector_end v) 1) ?s1 = (Inr (), ?s2)"
      by (rule move_construct_same[OF _ _ hs1])
         (use wb(1) sz in \<open>simp_all add: nts endb ptr_sub_def log_def\<close>)
    have hs2: "heap ?s2 ! b = Some (map Obj as @ map Obj ms @ Obj (moved_from T l) # (Obj l # replicate ?k Raw))"
      using wb(1) by (simp add: log_def)
    let ?s3 = "?s2\<lparr>heap := (heap ?s2)[b := Some (map Obj as @
                                   Obj (if ms = [] then moved_from T l else moved_from T (hd ms)) # map Obj ms @ (Obj l # replicate ?k Raw))],
                      trace := trace ?s2 @ map (Done MoveAssign) (rev (slots_from b (Suc (length (map Obj as))) (ptr_diff (ptr_sub (Vector_end v) 1) pos)))\<rparr>"
    have c3: "move_backward_n T pos (ptr_diff (ptr_sub (Vector_end v) 1) pos) (Vector_end v) ?s2 = (Inr (), ?s3)"
      by (rule move_backward_ok'[OF _ _ hs2])
         (use wb(1) la lm plt in \<open>simp_all add: nts endb posb ptr_sub_def ptr_diff_def log_def\<close>)
    have hs3: "heap ?s3 ! b = Some (map Obj as @
                                   Obj (if ms = [] then moved_from T l else moved_from T (hd ms)) # (map Obj ms @ (Obj l # replicate ?k Raw)))"
      using wb(1) by (simp add: log_def)
    let ?s4 = "?s3\<lparr>heap := (heap ?s3)[b := Some (map Obj as @ Obj ?x # (map Obj ms @ (Obj l # replicate ?k Raw)))],
                      trace := trace ?s3 @ [Done MoveAssign (Mem pos)]\<rparr>"
    have c4: "assign_at T MoveAssign pos ?x ?s3 = (Inr (), ?s4)"
      by (rule assign_at_ok'[OF _ _ hs3])
         (use wb(1) la in \<open>simp_all add: nts posb log_def\<close>)
    have r: "EasyEmplace T pos a v s = (Inr pos, ?v', log (Destroyed Auto) ?s4)"
      by (rule EasyEmplace_step_mid[OF _ c1 c2 c3 c4]) (use plt in \<open>simp add: posb endb\<close>)
    have hb: "heap (log (Destroyed Auto) ?s4) ! b = Some (map Obj (as @ ?x # ms @ [l]) @ replicate ?k Raw)"
      using wb(1) by (simp add: log_def)
    have w: "wf ?v' (log (Destroyed Auto) ?s4)" "elems ?v' (log (Destroyed Auto) ?s4) = as @ ?x # ms @ [l]"
      using wf_intro[of ?v' b "log (Destroyed Auto) ?s4" "as @ ?x # ms @ [l]" ?k, OF _ _ hb] Some wb(1) la lm room plt
      by (simp_all add: log_def)
    show ?thesis
      unfolding r td using w False posb endb la lm plt Some
      by (simp add: log_def ptr_sub_def ptr_diff_def)
  qed
qed

lemma wf_full_or_room:
  assumes "wf v s" and "\<not> vsize v < capacity (vdata v)"
  shows "vsize v = capacity (vdata v)"
proof (cases "buffer (vdata v)")
  case None
  then show ?thesis using assms(1) by (simp add: wf_null)
next
  case (Some b)
  then show ?thesis using wf_block(4)[OF assms(1) Some] assms(2) by simp
qed

lemma never_throws_reloc: "never_throws T \<Longrightarrow> \<forall>k. \<not> throws T (relocation_op T) k"
  by (simp add: never_throws_def)

lemma never_throws_op: "never_throws T \<Longrightarrow> \<forall>n. \<not> throws T k n"
  by (simp add: never_throws_def)

lemma Emplace_ok:
  assumes wf: "wf v s" and p: "p \<le> vsize v" and nt: "never_throws T"
    and mem: "vsize v < capacity (vdata v) \<or> grown (vsize v) \<le> budget s"
  shows "\<exists>v' s'. Emplace T (ptr_add (Vector_begin v) p) a v s = (Inr (ptr_add (Vector_begin v') p), v', s') \<and>
           wf v' s' \<and> vsize v' = Suc (vsize v) \<and>
           elems v' s' = take p (elems v s) @ args_val a # drop p (elems v s) \<and>
           capacity (vdata v') = (if vsize v < capacity (vdata v) then capacity (vdata v) else grown (vsize v)) \<and>
           budget s' + capacity (vdata v') = budget s + capacity (vdata v) \<and>
           leaked s' = leaked s \<and> fault s' = fault s"
proof (cases "vsize v < capacity (vdata v)")
  case True
  from EasyEmplace_ok[OF wf True p refl nt, of a]
  obtain s' where e: "EasyEmplace T (ptr_add (Vector_begin v) p) a v s =
       (Inr (ptr_add (Vector_begin v) p), v\<lparr>vsize := Suc (vsize v)\<rparr>, s')"
    and w: "wf (v\<lparr>vsize := Suc (vsize v)\<rparr>) s'"
    and el: "elems (v\<lparr>vsize := Suc (vsize v)\<rparr>) s' = take p (elems v s) @ args_val a # drop p (elems v s)"
    and rest: "budget s' = budget s" "leaked s' = leaked s" "fault s' = fault s"
    by blast
  have "Emplace T (ptr_add (Vector_begin v) p) a v s =
      (Inr (ptr_add (Vector_begin (v\<lparr>vsize := Suc (vsize v)\<rparr>)) p), v\<lparr>vsize := Suc (vsize v)\<rparr>, s')"
    using True e by (simp add: Emplace_def Vector_Capacity_def RawMemory_Capacity_def Vector_begin_def)
  then show ?thesis using w el rest True
    by (intro exI[of _ "v\<lparr>vsize := Suc (vsize v)\<rparr>"] exI[of _ s']) simp
next
  case False
  have full: "vsize v = capacity (vdata v)" by (rule wf_full_or_room[OF wf False])
  have bud: "grown (vsize v) \<le> budget s" using mem False by simp
  let ?v' = "\<lparr>vsize = Suc (vsize v), vdata = \<lparr>buffer = Some (length (heap s)), capacity = grown (vsize v)\<rparr>\<rparr>"
  from RealocationEmplace_ok[OF wf full p refl bud never_throws_op[OF nt] never_throws_reloc[OF nt], of a]
  obtain s' where e: "RealocationEmplace T (ptr_add (Vector_begin v) p) a v s =
            (Inr (Ptr (Some (length (heap s))) p), ?v', s')"
    and w: "wf ?v' s'"
    and el: "elems ?v' s' = take p (elems v s) @ args_val a # drop p (elems v s)"
    and rest: "budget s' = budget s - grown (vsize v) + capacity (vdata v)" "leaked s' = leaked s" "fault s' = fault s"
    by blast
  have "Emplace T (ptr_add (Vector_begin v) p) a v s = (Inr (ptr_add (Vector_begin ?v') p), ?v', s')"
    using False e by (simp add: Emplace_def Vector_Capacity_def RawMemory_Capacity_def Vector_begin_def
        GetAddress_def ptr_add_def)
  then show ?thesis using w el rest False bud
    by (intro exI[of _ ?v'] exI[of _ s']) simp
qed

lemma slot_of_elem:
  assumes "wf v s" and "i < vsize v"
  shows "slot_at s (ptr_add (Vector_begin v) i) = Some (Obj (elems v s ! i))"
proof (cases "buffer (vdata v)")
  case None
  then show ?thesis using assms by (simp add: wf_null)
next
  case (Some b)
  note wb = wf_block[OF assms(1) Some]
  show ?thesis
    using wb assms(2)
    by (simp add: ptr_add_def Vector_begin_def GetAddress_def Some slot_at_block nth_append)
qed

lemma wf_example: "wf (vector_of xs k) (state_of xs k)"
  by (rule wf_intro(1)[of _ 0 _ xs k]) (simp_all add: vector_of_def state_of_def)

lemma elems_example: "elems (vector_of xs k) (state_of xs k) = xs"
  by (rule wf_intro(2)[of _ 0 _ xs k]) (simp_all add: vector_of_def state_of_def)

lemma never_throws_int_like: "never_throws int_like"
  by (simp add: never_throws_def int_like_def)

lemma move_n_ok':
  assumes "\<forall>n. \<not> throws T MoveAssign n"
    and "b < length (heap s)" and "heap s ! b = Some (pre @ Obj y # map Obj xs @ post)"
    and "first = Ptr (Some b) (Suc (length pre))" and "n = length xs"
    and "d_first = Ptr (Some b) (length pre)"
  shows "move_n T first n d_first s =
           (Inr (), s\<lparr>heap := (heap s)[b := Some (pre @ map Obj xs @
                                   Obj (if xs = [] then y else moved_from T (last xs)) # post)],
                      trace := trace s @ map (Done MoveAssign) (slots_from b (length pre) n)\<rparr>)"
  using move_n_ok[OF assms(1-3)] assms(4-6) by simp

lemma Erase_step:
  assumes "move_n T (ptr_add pos 1) (ptr_diff (Vector_end v) (ptr_add pos 1)) pos s = (Inr (), s1)"
  shows "Erase T pos v s = (Inr pos, v\<lparr>vsize := vsize v - 1\<rparr>, destroy_at (ptr_sub (Vector_end v) 1) s1)"
  using assms by (simp add: Erase_def)

lemma destroy_at_ok':
  assumes "b < length (heap s)" and "heap s ! b = Some (pre @ Obj y # post)"
    and "p = Ptr (Some b) (length pre)"
  shows "destroy_at p s =
           s\<lparr>heap := (heap s)[b := Some (pre @ Raw # post)],
             trace := trace s @ [Destroyed (Mem p)]\<rparr>"
  using destroy_at_ok[OF assms(1,2)] assms(3) by simp

lemma Erase_ok:
  assumes wf: "wf v s" and p: "p < vsize v" and nt: "\<forall>n. \<not> throws T MoveAssign n"
  shows "\<exists>s'. Erase T (ptr_add (Vector_begin v) p) v s =
              (Inr (ptr_add (Vector_begin v) p), v\<lparr>vsize := vsize v - 1\<rparr>, s') \<and>
          wf (v\<lparr>vsize := vsize v - 1\<rparr>) s' \<and>
          elems (v\<lparr>vsize := vsize v - 1\<rparr>) s' = take p (elems v s) @ drop (Suc p) (elems v s) \<and>
          trace s' = trace s @ map (Done MoveAssign) (vslots v p (vsize v - Suc p)) @
                       [Destroyed (Mem (ptr_add (Vector_begin v) (vsize v - 1)))] \<and>
          heap s' = (heap s)[the (buffer (vdata v)) := heap s' ! the (buffer (vdata v))] \<and>
          budget s' = budget s \<and> leaked s' = leaked s \<and> fault s' = fault s"
proof -
  from wf p obtain b where Some: "buffer (vdata v) = Some b"
    by (cases "buffer (vdata v)") (auto simp: wf_def)
  note wb = wf_block[OF wf Some]
  let ?xs = "elems v s"
  let ?k = "capacity (vdata v) - vsize v"
  let ?v' = "v\<lparr>vsize := vsize v - 1\<rparr>"
  let ?pos = "ptr_add (Vector_begin v) p"
  have len: "length ?xs = vsize v" by (rule wb(3))
  have "?xs = take p ?xs @ ?xs ! p # drop (Suc p) ?xs"
    using p len by (simp add: id_take_nth_drop)
  moreover have "length (take p ?xs) = p" using len p by simp
  ultimately obtain as y cs where dec: "?xs = as @ y # cs" and la: "length as = p"
    by blast
  have td: "take p ?xs = as" "drop (Suc p) ?xs = cs" using dec la by simp_all
  have lc: "length cs = vsize v - Suc p" using dec la len by simp
  have posb: "?pos = Ptr (Some b) p"
    by (simp add: ptr_add_def Vector_begin_def GetAddress_def Some)
  have endb: "Vector_end v = Ptr (Some b) (vsize v)"
    by (simp add: Vector_end_def ptr_add_def GetAddress_def Some)
  have begb: "Vector_begin v = Ptr (Some b) 0"
    by (simp add: Vector_begin_def GetAddress_def Some)
  have hs: "heap s ! b = Some (map Obj as @ Obj y # map Obj cs @ replicate ?k Raw)"
    using wb(2) dec by simp
  let ?z = "if cs = [] then y else moved_from T (last cs)"
  let ?s1 = "s\<lparr>heap := (heap s)[b := Some (map Obj as @ map Obj cs @ Obj ?z # replicate ?k Raw)],
                trace := trace s @ map (Done MoveAssign) (slots_from b (length (map Obj as)) (ptr_diff (Vector_end v) (ptr_add ?pos 1)))\<rparr>"
  have m: "move_n T (ptr_add ?pos 1) (ptr_diff (Vector_end v) (ptr_add ?pos 1)) ?pos s = (Inr (), ?s1)"
    by (rule move_n_ok'[OF nt wb(1) hs])
       (use la lc in \<open>simp_all add: begb endb ptr_add_def ptr_diff_def\<close>)
  have r: "Erase T ?pos v s = (Inr ?pos, ?v', destroy_at (ptr_sub (Vector_end v) 1) ?s1)"
    by (rule Erase_step[OF m])
  have hs1: "heap ?s1 ! b = Some ((map Obj as @ map Obj cs) @ Obj ?z # replicate ?k Raw)"
    using wb(1) by simp
  let ?s2 = "?s1\<lparr>heap := (heap ?s1)[b := Some ((map Obj as @ map Obj cs) @ Raw # replicate ?k Raw)],
                trace := trace ?s1 @ [Destroyed (Mem (ptr_sub (Vector_end v) 1))]\<rparr>"
  have d: "destroy_at (ptr_sub (Vector_end v) 1) ?s1 = ?s2"
    by (rule destroy_at_ok'[OF _ hs1])
       (use wb(1) la lc p in \<open>simp_all add: endb ptr_sub_def\<close>)
  have hb: "heap ?s2 ! b = Some (map Obj (as @ cs) @ replicate (Suc ?k) Raw)"
    using wb(1) by simp
  have w: "wf ?v' ?s2" "elems ?v' ?s2 = as @ cs"
    using wf_intro[of ?v' b ?s2 "as @ cs" "Suc ?k", OF _ _ hb] Some wb(1,4) la lc p
    by simp_all
  show ?thesis
    unfolding r d td using w Some la lc p wb(1)
    by (simp add: vslots_def ptr_sub_def ptr_diff_def ptr_add_def begb endb)
qed

lemma value_construct_ok':
  assumes "\<forall>n. \<not> throws T ValueCtor n"
    and "bd < length (heap s)" and "heap s ! bd = Some (pre @ replicate n Raw @ post)"
    and "dst = Ptr (Some bd) (length pre)"
  shows "uninitialized_value_construct_n T dst n s =
           (Inr (), s\<lparr>heap := (heap s)[bd := Some (pre @ replicate n (Obj (value_init T)) @ post)],
                      trace := trace s @ map (Done ValueCtor) (slots_from bd (length pre) n)\<rparr>)"
  using value_construct_ok[OF assms(1-3)] assms(4) by simp

lemma destroy_n_ptr:
  assumes "b < length (heap s)" and "heap s ! b = Some (pre @ map Obj xs @ post)"
    and "p = Ptr (Some b) (length pre)" and "n = length xs"
  shows "destroy_n p n s =
           s\<lparr>heap := (heap s)[b := Some (pre @ replicate n Raw @ post)],
             trace := trace s @ map Destroyed (slots_from b (length pre) n)\<rparr>"
  using destroy_n_ok[OF assms(1,2)] assms(3,4) by simp

lemma Resize_shrinks:
  assumes wf: "wf v s" and n: "n \<le> vsize v"
  shows "\<exists>s'. Resize T n v s = (Inr (), v\<lparr>vsize := n\<rparr>, s') \<and>
          wf (v\<lparr>vsize := n\<rparr>) s' \<and> elems (v\<lparr>vsize := n\<rparr>) s' = take n (elems v s) \<and>
          trace s' = trace s @ map Destroyed (vslots v n (vsize v - n)) \<and>
          budget s' = budget s \<and> leaked s' = leaked s \<and> fault s' = fault s"
proof (cases "buffer (vdata v)")
  case None
  note wn = wf_null[OF wf None]
  have n0: "n = 0" using n wn by simp
  have veq: "v\<lparr>vsize := 0\<rparr> = v" using wn(1) by (cases v) simp
  have "Resize T n v s = (Inr (), v\<lparr>vsize := n\<rparr>, s)"
    using n wn by (simp add: Resize_def)
  then show ?thesis using wf wn None by (simp add: vslots_def n0 veq)
next
  case (Some b)
  note wb = wf_block[OF wf Some]
  let ?xs = "elems v s"
  let ?k = "capacity (vdata v) - vsize v"
  let ?v' = "v\<lparr>vsize := n\<rparr>"
  have len: "length ?xs = vsize v" by (rule wb(3))
  have hs: "heap s ! b = Some (map Obj (take n ?xs) @ map Obj (drop n ?xs) @ replicate ?k Raw)"
    using wb(2) by (simp flip: map_append)
  let ?s1 = "s\<lparr>heap := (heap s)[b := Some (map Obj (take n ?xs) @ replicate (vsize v - n) Raw @ replicate ?k Raw)],
                trace := trace s @ map Destroyed (slots_from b (length (map Obj (take n ?xs))) (vsize v - n))\<rparr>"
  have d: "destroy_n (ptr_add (GetAddress (vdata v)) n) (vsize v - n) s = ?s1"
    by (rule destroy_n_ptr[OF wb(1) hs])
       (use n len in \<open>simp_all add: ptr_add_def GetAddress_def Some\<close>)
  have r: "Resize T n v s = (Inr (), ?v', ?s1)"
    using n d by (simp add: Resize_def)
  have hb: "heap ?s1 ! b = Some (map Obj (take n ?xs) @ replicate (vsize v - n + ?k) Raw)"
    using wb(1) by (simp add: replicate_add)
  have w: "wf ?v' ?s1" "elems ?v' ?s1 = take n ?xs"
    using wf_intro[of ?v' b ?s1 "take n ?xs" "vsize v - n + ?k", OF _ _ hb] Some wb(1,4) len n
    by simp_all
  show ?thesis unfolding r using w Some n len by (simp add: vslots_def)
qed

lemma Reserve_ok:
  assumes wf: "wf v s" and nt: "\<forall>k. \<not> throws T (relocation_op T) k"
    and bud: "capacity (vdata v) < n \<longrightarrow> n \<le> budget s"
  shows "\<exists>v' s'. Reserve T n v s = (Inr (), v', s') \<and> wf v' s' \<and> elems v' s' = elems v s \<and>
          vsize v' = vsize v \<and> capacity (vdata v') = max n (capacity (vdata v)) \<and>
          budget s' + capacity (vdata v') = budget s + capacity (vdata v) \<and>
          leaked s' = leaked s \<and> fault s' = fault s"
proof (cases "capacity (vdata v) < n")
  case True
  with bud have b: "n \<le> budget s" by simp
  from Reserve_grows[OF wf True b nt] obtain s' where
    "Reserve T n v s = (Inr (), v\<lparr>vdata := \<lparr>buffer = Some (length (heap s)), capacity = n\<rparr>\<rparr>, s')"
    "wf (v\<lparr>vdata := \<lparr>buffer = Some (length (heap s)), capacity = n\<rparr>\<rparr>) s'"
    "elems (v\<lparr>vdata := \<lparr>buffer = Some (length (heap s)), capacity = n\<rparr>\<rparr>) s' = elems v s"
    "budget s' = budget s - n + capacity (vdata v)" "leaked s' = leaked s" "fault s' = fault s"
    by blast
  then show ?thesis using True b
    by (intro exI[of _ "v\<lparr>vdata := \<lparr>buffer = Some (length (heap s)), capacity = n\<rparr>\<rparr>"] exI[of _ s']) simp
next
  case False
  then have "Reserve T n v s = (Inr (), v, s)"
    by (simp add: Reserve_def Vector_Capacity_def RawMemory_Capacity_def)
  then show ?thesis using wf False by (intro exI[of _ v] exI[of _ s]) simp
qed

lemma Resize_step_grow:
  assumes "vsize v < n" and "Reserve T n v s = (Inr (), v1, s1)"
    and "uninitialized_value_construct_n T (ptr_add (GetAddress (vdata v1)) (vsize v1)) (n - vsize v1) s1 = (Inr (), s2)"
  shows "Resize T n v s = (Inr (), v1\<lparr>vsize := n\<rparr>, s2)"
  using assms by (simp add: Resize_def)

lemma Resize_grows:
  assumes wf: "wf v s" and n: "vsize v < n" and nt: "\<forall>k. \<not> throws T (relocation_op T) k"
    and ntv: "\<forall>k. \<not> throws T ValueCtor k"
    and bud: "capacity (vdata v) < n \<longrightarrow> n \<le> budget s"
  shows "\<exists>v1 s1 s'. Reserve T n v s = (Inr (), v1, s1) \<and>
          Resize T n v s = (Inr (), v1\<lparr>vsize := n\<rparr>, s') \<and>
          wf (v1\<lparr>vsize := n\<rparr>) s' \<and>
          elems (v1\<lparr>vsize := n\<rparr>) s' = elems v s @ replicate (n - vsize v) (value_init T) \<and>
          trace s' = trace s1 @ map (Done ValueCtor) (vslots v1 (vsize v) (n - vsize v)) \<and>
          leaked s' = leaked s \<and> fault s' = fault s"
proof -
  from Reserve_ok[OF wf nt bud] obtain v1 s1 where
    r: "Reserve T n v s = (Inr (), v1, s1)" and w1: "wf v1 s1" and e1: "elems v1 s1 = elems v s"
    and sz1: "vsize v1 = vsize v" and c1: "capacity (vdata v1) = max n (capacity (vdata v))"
    and rest: "leaked s1 = leaked s" "fault s1 = fault s"
    by blast
  have cap: "n \<le> capacity (vdata v1)" using c1 by simp
  then obtain b where Some: "buffer (vdata v1) = Some b"
    using w1 n by (cases "buffer (vdata v1)") (auto simp: wf_def)
  note wb = wf_block[OF w1 Some]
  let ?xs = "elems v s"
  let ?k = "capacity (vdata v1) - n"
  let ?v' = "v1\<lparr>vsize := n\<rparr>"
  have len: "length ?xs = vsize v" using wb(3) e1 sz1 by simp
  have "capacity (vdata v1) - vsize v1 = (n - vsize v) + ?k" using cap n sz1 by simp
  then have hs: "heap s1 ! b = Some (map Obj ?xs @ replicate (n - vsize v) Raw @ replicate ?k Raw)"
    using wb(2) e1 by (simp add: replicate_add)
  let ?s2 = "s1\<lparr>heap := (heap s1)[b := Some (map Obj ?xs @ replicate (n - vsize v) (Obj (value_init T)) @ replicate ?k Raw)],
                 trace := trace s1 @ map (Done ValueCtor) (slots_from b (length (map Obj ?xs)) (n - vsize v1))\<rparr>"
  have vc: "uninitialized_value_construct_n T (ptr_add (GetAddress (vdata v1)) (vsize v1)) (n - vsize v1) s1 = (Inr (), ?s2)"
    unfolding sz1
    by (rule value_construct_ok'[OF ntv wb(1) hs])
       (use len sz1 in \<open>simp_all add: ptr_add_def GetAddress_def Some\<close>)
  have rz: "Resize T n v s = (Inr (), ?v', ?s2)"
    by (rule Resize_step_grow[OF n r vc])
  have hb: "heap ?s2 ! b = Some (map Obj (?xs @ replicate (n - vsize v) (value_init T)) @ replicate ?k Raw)"
    using wb(1) by (simp add: map_replicate)
  have w: "wf ?v' ?s2" "elems ?v' ?s2 = ?xs @ replicate (n - vsize v) (value_init T)"
    using wf_intro[of ?v' b ?s2 "?xs @ replicate (n - vsize v) (value_init T)" ?k, OF _ _ hb]
      Some wb(1) len n cap
    by simp_all
  show ?thesis
    using r rz w rest Some len sz1
    by (intro exI[of _ v1] exI[of _ s1] exI[of _ ?s2]) (simp add: vslots_def)
qed

lemma Reserve_keeps_size: "Reserve T n v s = (r, v', s') \<Longrightarrow> vsize v' = vsize v"
  by (auto simp: Reserve_def RawMemory_Swap_def Let_def split: if_splits prod.splits sum.splits)

lemma Resize_failure_keeps_size: "Resize T n v s = (Inl e, v', s') \<Longrightarrow> vsize v' = vsize v"
  by (auto simp: Resize_def Let_def split: if_splits prod.splits sum.splits dest: Reserve_keeps_size)

lemma wf_size_le: "wf v s \<Longrightarrow> vsize v \<le> capacity (vdata v)"
proof (cases "buffer (vdata v)")
  case None
  assume "wf v s"
  from wf_null(1)[OF this None] show ?thesis by simp
next
  case (Some b)
  assume "wf v s"
  from wf_block(4)[OF this Some] show ?thesis .
qed

lemma PushBack_ok:
  assumes wf: "wf v s" and nt: "never_throws T"
    and mem: "vsize v < capacity (vdata v) \<or> grown (vsize v) \<le> budget s"
  shows "\<exists>v' s'. PushBack T a v s = (Inr (), v', s') \<and> wf v' s' \<and> vsize v' = Suc (vsize v) \<and>
           elems v' s' = elems v s @ [args_val a] \<and>
           capacity (vdata v') = (if vsize v < capacity (vdata v) then capacity (vdata v) else grown (vsize v)) \<and>
           budget s' + capacity (vdata v') = budget s + capacity (vdata v) \<and>
           leaked s' = leaked s \<and> fault s' = fault s"
proof -
  have len: "length (elems v s) = vsize v" using wf by (rule length_elems)
  from Emplace_ok[OF wf le_refl nt mem, of a] obtain v' s' where
    e: "Emplace T (ptr_add (Vector_begin v) (vsize v)) a v s = (Inr (ptr_add (Vector_begin v') (vsize v)), v', s')"
    and w: "wf v' s'" and sz: "vsize v' = Suc (vsize v)"
    and el: "elems v' s' = take (vsize v) (elems v s) @ args_val a # drop (vsize v) (elems v s)"
    and rest: "capacity (vdata v') = (if vsize v < capacity (vdata v) then capacity (vdata v) else grown (vsize v))"
      "budget s' + capacity (vdata v') = budget s + capacity (vdata v)"
      "leaked s' = leaked s" "fault s' = fault s"
    by blast
  have "vsize v' \<le> capacity (vdata v')"
    using w by (rule wf_size_le)
  then have bk: "Back v' = Inr (Ptr (buffer (vdata v')) (vsize v))"
    using sz by (simp add: Back_def RawMemory_index_def)
  have "PushBack T a v s = (Inr (), v', s')"
    using e bk by (simp add: PushBack_def EmplaceBack_def Vector_end_def Vector_begin_def)
  moreover have "elems v' s' = elems v s @ [args_val a]" using el len by simp
  ultimately show ?thesis using w sz rest by blast
qed

lemma cap_inv_step:
  assumes "cap_inv v" and "vsize v' = Suc (vsize v)"
    and "capacity (vdata v') = (if vsize v < capacity (vdata v) then capacity (vdata v) else grown (vsize v))"
  shows "\<exists>e. capacity (vdata v') = 2 ^ e \<and> vsize v' \<le> capacity (vdata v') \<and>
              capacity (vdata v') < 2 * vsize v'"
proof -
  from assms(1) consider "vsize v = 0" "capacity (vdata v) = 0"
    | e where "capacity (vdata v) = 2 ^ e" "vsize v \<le> capacity (vdata v)" "capacity (vdata v) < 2 * vsize v"
    by (auto simp: cap_inv_def)
  then show ?thesis
  proof cases
    case 1
    then have "capacity (vdata v') = 2 ^ 0" using assms(3) by (simp add: grown_def)
    then show ?thesis using assms(2) 1 by (intro exI[of _ 0]) simp
  next
    case 2
    show ?thesis
    proof (cases "vsize v < capacity (vdata v)")
      case True
      then show ?thesis using 2 assms(2,3) by (intro exI[of _ e]) simp
    next
      case False
      then have eq: "vsize v = capacity (vdata v)" using 2 by simp
      then have pos: "vsize v \<noteq> 0" using 2 by simp
      have "capacity (vdata v') = 2 ^ Suc e" using False assms(3) eq 2(1) pos by (simp add: grown_def)
      moreover have "capacity (vdata v') = 2 * vsize v" using False assms(3) pos by (simp add: grown_def)
      ultimately show ?thesis using assms(2) pos by (intro exI[of _ "Suc e"]) simp
    qed
  qed
qed

lemma push_all_caps:
  assumes "wf v s" and "never_throws T" and "cap_inv v"
    and "3 * (vsize v + length as) \<le> budget s + capacity (vdata v)"
  shows "\<exists>cs v' s'. push_all T as v s = (cs, v', s') \<and> length cs = length as \<and>
           (\<forall>k<length as. \<exists>e. cs ! k = 2 ^ e \<and> vsize v + Suc k \<le> cs ! k \<and> cs ! k < 2 * (vsize v + Suc k)) \<and>
           wf v' s' \<and> elems v' s' = elems v s @ map args_val as"
  using assms
proof (induction as arbitrary: v s)
  case Nil
  then show ?case by simp
next
  case (Cons a as)
  have le: "vsize v \<le> capacity (vdata v)"
    using Cons.prems(1) by (rule wf_size_le)
  have mem: "vsize v < capacity (vdata v) \<or> grown (vsize v) \<le> budget s"
    using Cons.prems(4) le by (auto simp: grown_def)
  from PushBack_ok[OF Cons.prems(1,2) mem, of a] obtain v1 s1 where
    p: "PushBack T a v s = (Inr (), v1, s1)" and w1: "wf v1 s1" and sz1: "vsize v1 = Suc (vsize v)"
    and el1: "elems v1 s1 = elems v s @ [args_val a]"
    and c1: "capacity (vdata v1) = (if vsize v < capacity (vdata v) then capacity (vdata v) else grown (vsize v))"
    and b1: "budget s1 + capacity (vdata v1) = budget s + capacity (vdata v)"
    by blast
  from cap_inv_step[OF Cons.prems(3) sz1 c1] obtain e where
    e: "capacity (vdata v1) = 2 ^ e" "vsize v1 \<le> capacity (vdata v1)" "capacity (vdata v1) < 2 * vsize v1"
    by blast
  then have inv1: "cap_inv v1" unfolding cap_inv_def by blast
  have bud1: "3 * (vsize v1 + length as) \<le> budget s1 + capacity (vdata v1)"
    using Cons.prems(4) sz1 b1 by simp
  from Cons.IH[OF w1 Cons.prems(2) inv1 bud1] obtain cs v' s' where
    pa: "push_all T as v1 s1 = (cs, v', s')" and lc: "length cs = length as"
    and ck: "\<forall>k<length as. \<exists>e. cs ! k = 2 ^ e \<and> vsize v1 + Suc k \<le> cs ! k \<and> cs ! k < 2 * (vsize v1 + Suc k)"
    and w': "wf v' s'" and el': "elems v' s' = elems v1 s1 @ map args_val as"
    by blast
  let ?cs = "capacity (vdata v1) # cs"
  have r: "push_all T (a # as) v s = (?cs, v', s')"
    using p pa by (simp add: Vector_Capacity_def RawMemory_Capacity_def)
  have "\<exists>e. ?cs ! k = 2 ^ e \<and> vsize v + Suc k \<le> ?cs ! k \<and> ?cs ! k < 2 * (vsize v + Suc k)"
    if "k < length (a # as)" for k
  proof (cases k)
    case 0
    then show ?thesis using e sz1 by auto
  next
    case (Suc j)
    then have "j < length as" using that by simp
    with ck obtain e' where "cs ! j = 2 ^ e'" "vsize v1 + Suc j \<le> cs ! j" "cs ! j < 2 * (vsize v1 + Suc j)"
      by blast
    then show ?thesis using Suc sz1 by auto
  qed
  then show ?case using r lc w' el' el1 by simp
qed

lemma wf_default: "wf Vector_default s" "elems Vector_default s = []" "cap_inv Vector_default"
  by (simp_all add: wf_def elems_def cap_inv_def Vector_default_def RawMemory_default_def)

lemma trace_put [simp]: "trace (put p x s) = trace s"
  by (simp add: put_def split: option.splits)

lemma trace_ub [simp]: "trace (ub s) = trace s"
  by (simp add: ub_def)

lemma inv_log [simp]:
  "invocations k (trace (log e s)) = invocations k (trace s) + (if is_call k e then 1 else 0)"
  by (simp add: log_def invocations_def)

lemma inv_construct_at:
  "invocations k (trace (snd (construct_at T k' p v s))) =
     invocations k (trace s) + (if k' = k then 1 else 0)"
  by (simp add: construct_at_def split: option.splits slot.splits)

lemma inv_construct_at':
  "construct_at T k' p v s = (r, s1) \<Longrightarrow>
   invocations k (trace s1) = invocations k (trace s) + (if k' = k then 1 else 0)"
  using inv_construct_at[of k T k' p v s] by simp

lemma inv_destroy_at [simp]:
  "invocations k (trace (destroy_at p s)) = invocations k (trace s)"
  by (simp add: destroy_at_def split: option.splits slot.splits)

lemma inv_destroy_n [simp]:
  "invocations k (trace (destroy_n p n s)) = invocations k (trace s)"
  by (induction n arbitrary: p s) simp_all

lemma inv_move_construct:
  "k \<noteq> MoveCtor \<Longrightarrow>
   invocations k (trace (snd (move_construct T d sr s))) = invocations k (trace s)"
  by (auto simp: move_construct_def split: option.splits slot.splits prod.splits sum.splits
      dest: inv_construct_at'[where k = k])

lemma inv_copy_construct:
  "k \<noteq> CopyCtor \<Longrightarrow>
   invocations k (trace (snd (copy_construct T d sr s))) = invocations k (trace s)"
  by (auto simp: copy_construct_def inv_construct_at split: option.splits slot.splits)

lemma inv_uninit_move:
  "k \<noteq> MoveCtor \<Longrightarrow>
   invocations k (trace (snd (uninitialized_move_n T sr n d s))) = invocations k (trace s)"
proof (induction n arbitrary: sr d s)
  case 0
  then show ?case by simp
next
  case (Suc n)
  show ?case
  proof (cases "move_construct T d sr s")
    case (Pair r s1)
    have i1: "invocations k (trace s1) = invocations k (trace s)"
      using inv_move_construct[OF Suc.prems, of T d sr s] Pair by simp
    show ?thesis
    proof (cases r)
      case (Inl e)
      then show ?thesis using Pair i1 by simp
    next
      case (Inr u)
      obtain r2 s2 where n2: "uninitialized_move_n T (ptr_add sr 1) n (ptr_add d 1) s1 = (r2, s2)"
        by (cases "uninitialized_move_n T (ptr_add sr 1) n (ptr_add d 1) s1")
      have "invocations k (trace s2) = invocations k (trace s1)"
        using Suc.IH[OF Suc.prems, of "ptr_add sr 1" "ptr_add d 1" s1] n2 by simp
      then show ?thesis using Pair Inr n2 i1 by (cases r2) simp_all
    qed
  qed
qed

lemma inv_uninit_copy:
  "k \<noteq> CopyCtor \<Longrightarrow>
   invocations k (trace (snd (uninitialized_copy_n T sr n d s))) = invocations k (trace s)"
proof (induction n arbitrary: sr d s)
  case 0
  then show ?case by simp
next
  case (Suc n)
  show ?case
  proof (cases "copy_construct T d sr s")
    case (Pair r s1)
    have i1: "invocations k (trace s1) = invocations k (trace s)"
      using inv_copy_construct[OF Suc.prems, of T d sr s] Pair by simp
    show ?thesis
    proof (cases r)
      case (Inl e)
      then show ?thesis using Pair i1 by simp
    next
      case (Inr u)
      obtain r2 s2 where n2: "uninitialized_copy_n T (ptr_add sr 1) n (ptr_add d 1) s1 = (r2, s2)"
        by (cases "uninitialized_copy_n T (ptr_add sr 1) n (ptr_add d 1) s1")
      have "invocations k (trace s2) = invocations k (trace s1)"
        using Suc.IH[OF Suc.prems, of "ptr_add sr 1" "ptr_add d 1" s1] n2 by simp
      then show ?thesis using Pair Inr n2 i1 by (cases r2) simp_all
    qed
  qed
qed

lemma other_op_neq:
  "moves_elements T \<Longrightarrow> other_op T \<noteq> MoveCtor"
  "\<not> moves_elements T \<Longrightarrow> other_op T \<noteq> CopyCtor"
  by (simp_all add: other_op_def)

lemma inv_Allocate [simp]:
  "invocations k (trace (snd (Allocate n s))) = invocations k (trace s)"
  by (simp add: Allocate_def invocations_def)

lemma inv_Deallocate [simp]:
  "invocations k (trace (Deallocate b s)) = invocations k (trace s)"
  by (simp add: Deallocate_def invocations_def ub_def split: option.splits)

lemma inv_RawMemory_ctor:
  "RawMemory_ctor n s = (r, s1) \<Longrightarrow> invocations k (trace s1) = invocations k (trace s)"
  using inv_Allocate[of k n s]
  by (cases "Allocate n s") (auto simp: RawMemory_ctor_def split: sum.splits)

lemma inv_FillTmpData:
  "invocations (other_op T) (trace (snd (FillTmpData T v d s))) = invocations (other_op T) (trace s)"
  using inv_uninit_move[OF other_op_neq(1), of T T] inv_uninit_copy[OF other_op_neq(2), of T T]
  by (simp add: FillTmpData_def moves_elements_def)

lemma inv_Reserve:
  "invocations (other_op T) (trace (snd (snd (Reserve T n v s)))) = invocations (other_op T) (trace s)"
proof (cases "Vector_Capacity v \<ge> n")
  case True
  then show ?thesis by (simp add: Reserve_def)
next
  case False
  obtain r1 s1 where c: "RawMemory_ctor n s = (r1, s1)" by (cases "RawMemory_ctor n s")
  note i1 = inv_RawMemory_ctor[OF c, of "other_op T"]
  show ?thesis
  proof (cases r1)
    case (Inl e)
    then show ?thesis using False c i1 by (simp add: Reserve_def)
  next
    case (Inr nd)
    obtain r2 s2 where f: "FillTmpData T v nd s1 = (r2, s2)" by (cases "FillTmpData T v nd s1")
    have i2: "invocations (other_op T) (trace s2) = invocations (other_op T) (trace s1)"
      using inv_FillTmpData[of T v nd s1] f by simp
    show ?thesis using False c Inr f i1 i2
      by (cases r2) (simp_all add: Reserve_def RawMemory_dtor_def RawMemory_Swap_def)
  qed
qed

lemma inv_relocate_around:
  "invocations (other_op T) (trace (snd (relocate_around T v p nd s))) = invocations (other_op T) (trace s)"
proof (cases "moves_elements T")
  case True
  note ne = other_op_neq(1)[OF True]
  obtain r1 s1 where a: "uninitialized_move_n T (GetAddress (vdata v)) p (GetAddress nd) s = (r1, s1)"
    by (cases "uninitialized_move_n T (GetAddress (vdata v)) p (GetAddress nd) s")
  have i1: "invocations (other_op T) (trace s1) = invocations (other_op T) (trace s)"
    using inv_uninit_move[OF ne, of T "GetAddress (vdata v)" p "GetAddress nd" s] a by simp
  show ?thesis
    using True a i1 inv_uninit_move[OF ne, of T _ _ _ s1]
    by (cases r1) (simp_all add: relocate_around_def moves_elements_def)
next
  case False
  note ne = other_op_neq(2)[OF False]
  obtain r1 s1 where a: "uninitialized_copy_n T (GetAddress (vdata v)) p (GetAddress nd) s = (r1, s1)"
    by (cases "uninitialized_copy_n T (GetAddress (vdata v)) p (GetAddress nd) s")
  have i1: "invocations (other_op T) (trace s1) = invocations (other_op T) (trace s)"
    using inv_uninit_copy[OF ne, of T "GetAddress (vdata v)" p "GetAddress nd" s] a by simp
  show ?thesis
    using False a i1 inv_uninit_copy[OF ne, of T _ _ _ s1]
    by (cases r1) (simp_all add: relocate_around_def moves_elements_def)
qed

lemma inv_RealocationEmplace:
  assumes "args_op a \<noteq> other_op T"
  shows "invocations (other_op T) (trace (snd (snd (RealocationEmplace T pos a v s)))) =
         invocations (other_op T) (trace s)"
proof -
  let ?k = "other_op T"
  let ?p = "ptr_diff pos (Vector_begin v)"
  obtain r1 s1 where c: "RawMemory_ctor (if vsize v = 0 then 1 else vsize v * 2) s = (r1, s1)"
    by (cases "RawMemory_ctor (if vsize v = 0 then 1 else vsize v * 2) s")
  note i1 = inv_RawMemory_ctor[OF c, of ?k]
  show ?thesis
  proof (cases r1)
    case (Inl e)
    then show ?thesis using c i1 by (simp add: RealocationEmplace_def)
  next
    case (Inr nd)
    show ?thesis
    proof (cases "RawMemory_plus nd ?p")
      case (Inl e)
      then show ?thesis using c \<open>r1 = Inr nd\<close> i1 by (simp add: RealocationEmplace_def)
    next
      case pl: (Inr q)
      obtain r2 s2 where k: "construct_at T (args_op a) q (args_val a) s1 = (r2, s2)"
        by (cases "construct_at T (args_op a) q (args_val a) s1")
      have i2: "invocations ?k (trace s2) = invocations ?k (trace s1)"
        using inv_construct_at[of ?k T "args_op a" q "args_val a" s1] k assms by simp
      show ?thesis
      proof (cases r2)
        case (Inl e)
        then show ?thesis using c Inr pl k i1 i2
          by (simp add: RealocationEmplace_def RawMemory_dtor_def)
      next
        case u: (Inr u)
        obtain r3 s3 where l: "relocate_around T v ?p nd s2 = (r3, s3)"
          by (cases "relocate_around T v ?p nd s2")
        have i3: "invocations ?k (trace s3) = invocations ?k (trace s2)"
          using inv_relocate_around[of T v ?p nd s2] l by simp
        show ?thesis using c Inr pl k u l i1 i2 i3
          by (cases r3) (simp_all add: RealocationEmplace_def RawMemory_dtor_def RawMemory_Swap_def Let_def)
      qed
    qed
  qed
qed

lemma copy_assign_ok:
  assumes "\<not> throws T CopyAssign (Suc (invocations CopyAssign (trace s)))"
    and "bs < length (heap s)" and "heap s ! bs = Some (spre @ Obj x # spost)"
    and "bd < length (heap s)" and "heap s ! bd = Some (pre @ Obj y # post)"
    and "src = Ptr (Some bs) (length spre)" and "dst = Ptr (Some bd) (length pre)"
  shows "copy_assign T dst src s =
           (Inr (), s\<lparr>heap := (heap s)[bd := Some (pre @ Obj x # post)],
                      trace := trace s @ [Done CopyAssign (Mem dst)]\<rparr>)"
  using assms by (simp add: copy_assign_def slot_at_block assign_at_ok)

lemma assign_loop_ok:
  assumes nt: "\<forall>n. \<not> throws T CopyAssign n"
    and bt: "buffer (vdata v) = Some bt" and br: "buffer (vdata r) = Some br" and ne: "bt \<noteq> br"
    and lt: "bt < length (heap s)" and lr: "br < length (heap s)"
    and ht: "heap s ! bt = Some (map Obj dn @ map Obj xs @ post)"
    and hr: "heap s ! br = Some (map Obj dn @ map Obj ys @ rpost)"
    and i: "i = length dn"
    and sv: "vsize v = i + length xs" and sr: "vsize r = i + length ys"
    and cv: "vsize v \<le> capacity (vdata v)" and cr: "vsize r \<le> capacity (vdata r)"
  shows "assign_loop T v r i s =
           (Inr (i + min (length xs) (length ys)),
            s\<lparr>heap := (heap s)[bt := Some (map Obj dn @ map Obj (take (length xs) ys) @
                                              map Obj (drop (length ys) xs) @ post)],
              trace := trace s @ map (Done CopyAssign) (slots_from bt i (min (length xs) (length ys)))\<rparr>)"
  using ht hr i sv sr lt lr
proof (induction xs arbitrary: ys dn i s)
  case Nil
  then show ?case by (subst assign_loop.simps) (simp add: heap_same)
next
  case (Cons x xs)
  show ?case
  proof (cases ys)
    case Nil
    then show ?thesis using Cons.prems by (subst assign_loop.simps) (simp add: heap_same)
  next
    case (Cons y ys')
    let ?dst = "Ptr (Some bt) i" and ?src = "Ptr (Some br) i"
    let ?s1 = "s\<lparr>heap := (heap s)[bt := Some (map Obj dn @ Obj y # (map Obj xs @ post))],
                  trace := trace s @ [Done CopyAssign (Mem ?dst)]\<rparr>"
    have ix: "RawMemory_index (vdata v) i = Inr ?dst" "RawMemory_index (vdata r) i = Inr ?src"
      using Cons.prems(4,5) Cons cv cr bt br by (simp_all add: RawMemory_index_def)
    have ca: "copy_assign T ?dst ?src s = (Inr (), ?s1)"
      by (rule copy_assign_ok[where spre = "map Obj dn" and spost = "map Obj ys' @ rpost" and x = y
            and pre = "map Obj dn" and y = x])
         (use Cons.prems Cons nt in simp_all)
    have step: "assign_loop T v r i s = assign_loop T v r (Suc i) ?s1"
      using Cons.prems(4,5) Cons ix ca by (subst assign_loop.simps) simp
    have "assign_loop T v r (Suc i) ?s1 =
           (Inr (Suc i + min (length xs) (length ys')),
            ?s1\<lparr>heap := (heap ?s1)[bt := Some (map Obj (dn @ [y]) @ map Obj (take (length xs) ys') @
                                              map Obj (drop (length ys') xs) @ post)],
              trace := trace ?s1 @ map (Done CopyAssign) (slots_from bt (Suc i) (min (length xs) (length ys')))\<rparr>)"
      by (rule Cons.IH) (use Cons.prems Cons ne in simp_all)
    then show ?thesis unfolding step using Cons by simp
  qed
qed


lemma assign_loop_empty:
  "vsize v = 0 \<or> vsize r = 0 \<Longrightarrow> assign_loop T v r 0 s = (Inr 0, s)"
  by (subst assign_loop.simps) auto

lemma wf_frame:
  assumes "wf v s"
    and "\<And>b. buffer (vdata v) = Some b \<Longrightarrow> b < length (heap s') \<and> heap s' ! b = heap s ! b"
  shows "wf v s'" and "elems v s' = elems v s"
proof -
  show "wf v s'"
  proof (cases "buffer (vdata v)")
    case None
    then show ?thesis using assms(1) by (simp add: wf_def)
  next
    case (Some b)
    then show ?thesis using assms(1) assms(2)[OF Some] by (simp add: wf_def)
  qed
  show "elems v s' = elems v s"
  proof (cases "buffer (vdata v)")
    case None
    then show ?thesis by (simp add: elems_def)
  next
    case (Some b)
    then show ?thesis using assms(2)[OF Some] by (simp add: elems_def)
  qed
qed

lemma Vector_dtor_ok:
  assumes wf: "wf v s"
  shows "trace (Vector_dtor v s) = trace s @ release_events v"
    and "heap (Vector_dtor v s) = (case buffer (vdata v) of None \<Rightarrow> heap s | Some b \<Rightarrow> (heap s)[b := None])"
    and "leaked (Vector_dtor v s) = leaked s" and "fault (Vector_dtor v s) = fault s"
proof -
  have "trace (Vector_dtor v s) = trace s @ release_events v \<and>
        heap (Vector_dtor v s) = (case buffer (vdata v) of None \<Rightarrow> heap s | Some b \<Rightarrow> (heap s)[b := None]) \<and>
        leaked (Vector_dtor v s) = leaked s \<and> fault (Vector_dtor v s) = fault s"
  proof (cases "buffer (vdata v)")
    case None
    note wn = wf_null[OF wf None]
    show ?thesis using None wn
      by (simp add: Vector_dtor_def RawMemory_dtor_def Deallocate_def release_events_def)
  next
    case (Some b)
    note wb = wf_block[OF wf Some]
    have hs: "heap s ! b = Some ([] @ map Obj (elems v s) @ replicate (capacity (vdata v) - vsize v) Raw)"
      using wb(2) by simp
    let ?s1 = "s\<lparr>heap := (heap s)[b := Some ([] @ replicate (vsize v) Raw @ replicate (capacity (vdata v) - vsize v) Raw)],
                  trace := trace s @ map Destroyed (slots_from b (length ([]::'a slot list)) (vsize v))\<rparr>"
    have d: "destroy_n (GetAddress (vdata v)) (vsize v) s = ?s1"
      by (rule destroy_n_ptr[OF wb(1) hs]) (simp_all add: GetAddress_def Some wb(3))
    show ?thesis
      unfolding Vector_dtor_def d using Some wb(1)
      by (simp add: RawMemory_dtor_def Deallocate_def release_events_def)
  qed
  then show "trace (Vector_dtor v s) = trace s @ release_events v"
    and "heap (Vector_dtor v s) = (case buffer (vdata v) of None \<Rightarrow> heap s | Some b \<Rightarrow> (heap s)[b := None])"
    and "leaked (Vector_dtor v s) = leaked s" and "fault (Vector_dtor v s) = fault s"
    by simp_all
qed

lemma Vector_copy_ctor_ok:
  assumes wf: "wf r s" and pos: "0 < vsize r" and bud: "vsize r \<le> budget s"
    and nt: "\<forall>n. \<not> throws T CopyCtor n"
  shows "Vector_copy_ctor T r s =
          (Inr \<lparr>vsize = vsize r, vdata = \<lparr>buffer = Some (length (heap s)), capacity = vsize r\<rparr>\<rparr>,
           s\<lparr>heap := heap s @ [Some (map Obj (elems r s))], budget := budget s - vsize r,
             trace := trace s @ Alloc (length (heap s)) (vsize r) #
                      map (Done CopyCtor) (slots_from (length (heap s)) 0 (vsize r))\<rparr>)"
proof -
  from wf pos obtain b where Some: "buffer (vdata r) = Some b"
    by (cases "buffer (vdata r)") (auto simp: wf_def)
  note wb = wf_block[OF wf Some]
  let ?d = "length (heap s)"
  let ?n = "vsize r"
  let ?nd = "\<lparr>buffer = Some ?d, capacity = ?n\<rparr>"
  let ?s1 = "s\<lparr>heap := heap s @ [Some (replicate ?n Raw)], budget := budget s - ?n,
               trace := trace s @ [Alloc ?d ?n]\<rparr>"
  have ctor: "RawMemory_ctor ?n s = (Inr ?nd, ?s1)"
    using pos bud by (simp add: RawMemory_ctor_def Allocate_def)
  have bd: "b \<noteq> ?d" using wb(1) by simp
  have src: "heap ?s1 ! b = Some ([] @ map Obj (elems r s) @ replicate (capacity (vdata r) - ?n) Raw)"
    using wb by (simp add: nth_append)
  have dst: "heap ?s1 ! ?d = Some ([] @ replicate (length (elems r s)) Raw @ [])"
    using wb(3) by simp
  let ?s2 = "?s1\<lparr>heap := (heap ?s1)[?d := Some ([] @ map Obj (elems r s) @ [])],
                  trace := trace ?s1 @ map (Done CopyCtor) (slots_from ?d (length ([]::'a slot list)) (length (elems r s)))\<rparr>"
  have "uninitialized_copy_n T (Ptr (Some b) (length ([]::'a slot list))) (length (elems r s))
           (Ptr (Some ?d) (length ([]::'a slot list))) ?s1 = (Inr (), ?s2)"
    by (rule uninit_copy_ok[OF nt _ src _ dst bd]) (use wb(1) in simp_all)
  then have cp: "uninitialized_copy_n T (GetAddress (vdata r)) ?n (GetAddress ?nd) ?s1 = (Inr (), ?s2)"
    by (simp add: GetAddress_def Some wb(3))
  show ?thesis
    unfolding Vector_copy_ctor_def ctor using cp wb(3) by simp
qed

lemma Vector_copy_ctor_fails:
  assumes wf: "wf r s" and f: "Vector_copy_ctor T r s = (Inl e, s')"
  shows "length (heap s) \<le> length (heap s') \<and> (\<forall>b<length (heap s). heap s' ! b = heap s ! b) \<and>
         leaked s' = leaked s \<and> fault s' = fault s"
proof (cases "vsize r = 0")
  case True
  then have "Vector_copy_ctor T r s = (Inr \<lparr>vsize = 0, vdata = \<lparr>buffer = None, capacity = 0\<rparr>\<rparr>, s)"
    by (simp add: Vector_copy_ctor_def RawMemory_ctor_def Allocate_def)
  with f show ?thesis by simp
next
  case False
  then have pos: "0 < vsize r" by simp
  from wf pos obtain b where Some: "buffer (vdata r) = Some b"
    by (cases "buffer (vdata r)") (auto simp: wf_def)
  note wb = wf_block[OF wf Some]
  show ?thesis
  proof (cases "vsize r \<le> budget s")
    case bad: False
    then have "Vector_copy_ctor T r s = (Inl bad_alloc, s)"
      using pos by (simp add: Vector_copy_ctor_def RawMemory_ctor_def Allocate_def)
    with f show ?thesis by simp
  next
    case True
    let ?d = "length (heap s)"
    let ?n = "vsize r"
    let ?nd = "\<lparr>buffer = Some ?d, capacity = ?n\<rparr>"
    let ?s1 = "s\<lparr>heap := heap s @ [Some (replicate ?n Raw)], budget := budget s - ?n,
                 trace := trace s @ [Alloc ?d ?n]\<rparr>"
    have ctor: "RawMemory_ctor ?n s = (Inr ?nd, ?s1)"
      using pos True by (simp add: RawMemory_ctor_def Allocate_def)
    have bd: "b \<noteq> ?d" using wb(1) by simp
    have src: "heap ?s1 ! b = Some ([] @ map Obj (elems r s) @ replicate (capacity (vdata r) - ?n) Raw)"
      using wb by (simp add: nth_append)
    have dst: "heap ?s1 ! ?d = Some ([] @ replicate (length (elems r s)) Raw @ [])"
      using wb(3) by simp
    have "\<exists>es. uninitialized_copy_n T (Ptr (Some b) (length ([]::'a slot list))) (length (elems r s))
             (Ptr (Some ?d) (length ([]::'a slot list))) ?s1 =
           (Inr (), ?s1\<lparr>heap := (heap ?s1)[?d := Some ([] @ map Obj (elems r s) @ [])], trace := trace ?s1 @ es\<rparr>) \<or>
         uninitialized_copy_n T (Ptr (Some b) (length ([]::'a slot list))) (length (elems r s))
             (Ptr (Some ?d) (length ([]::'a slot list))) ?s1 =
           (Inl (ElemThrow CopyCtor), ?s1\<lparr>trace := trace ?s1 @ es\<rparr>)"
      by (rule uninit_copy_outcome[OF _ src _ dst bd]) (use wb(1) in simp_all)
    then obtain es where
      "uninitialized_copy_n T (GetAddress (vdata r)) ?n (GetAddress ?nd) ?s1 =
           (Inr (), ?s1\<lparr>heap := (heap ?s1)[?d := Some ([] @ map Obj (elems r s) @ [])], trace := trace ?s1 @ es\<rparr>) \<or>
       uninitialized_copy_n T (GetAddress (vdata r)) ?n (GetAddress ?nd) ?s1 =
           (Inl (ElemThrow CopyCtor), ?s1\<lparr>trace := trace ?s1 @ es\<rparr>)"
      by (auto simp: GetAddress_def Some wb(3))
    then show ?thesis
    proof
      assume "uninitialized_copy_n T (GetAddress (vdata r)) ?n (GetAddress ?nd) ?s1 =
           (Inr (), ?s1\<lparr>heap := (heap ?s1)[?d := Some ([] @ map Obj (elems r s) @ [])], trace := trace ?s1 @ es\<rparr>)"
      then show ?thesis using f unfolding Vector_copy_ctor_def ctor by simp
    next
      assume "uninitialized_copy_n T (GetAddress (vdata r)) ?n (GetAddress ?nd) ?s1 =
           (Inl (ElemThrow CopyCtor), ?s1\<lparr>trace := trace ?s1 @ es\<rparr>)"
      then have "s' = RawMemory_dtor ?nd (?s1\<lparr>trace := trace ?s1 @ es\<rparr>)"
        using f unfolding Vector_copy_ctor_def ctor by simp
      then show ?thesis
        by (simp add: RawMemory_dtor_def Deallocate_def nth_append)
    qed
  qed
qed

lemma Vector_assign_step_shrink:
  assumes "this \<noteq> rhs" and "\<not> capacity (vdata (vs ! this)) < vsize (vs ! rhs)"
    and "assign_loop T (vs ! this) (vs ! rhs) 0 s = (Inr i, s1)"
    and "vsize (vs ! rhs) < vsize (vs ! this)"
  shows "Vector_assign T this rhs vs s =
          (Inr (), vs[this := (vs ! this)\<lparr>vsize := vsize (vs ! rhs)\<rparr>],
           destroy_n (ptr_add (GetAddress (vdata (vs ! this))) i) (vsize (vs ! this) - vsize (vs ! rhs)) s1)"
  using assms by (simp add: Vector_assign_def RawMemory_Capacity_def)

lemma Vector_assign_step_extend:
  assumes "this \<noteq> rhs" and "\<not> capacity (vdata (vs ! this)) < vsize (vs ! rhs)"
    and "assign_loop T (vs ! this) (vs ! rhs) 0 s = (Inr i, s1)"
    and "\<not> vsize (vs ! rhs) < vsize (vs ! this)"
    and "uninitialized_copy_n T (ptr_add (GetAddress (vdata (vs ! rhs))) i)
           (vsize (vs ! rhs) - vsize (vs ! this)) (ptr_add (GetAddress (vdata (vs ! this))) i) s1 = (Inr (), s2)"
  shows "Vector_assign T this rhs vs s =
          (Inr (), vs[this := (vs ! this)\<lparr>vsize := vsize (vs ! rhs)\<rparr>], s2)"
  using assms by (simp add: Vector_assign_def RawMemory_Capacity_def)

lemma Vector_eta: "\<lparr>vsize = vsize (v::Vector), vdata = vdata v\<rparr> = v"
  by (cases v) simp

lemma Vector_assign_step_realloc:
  assumes "this \<noteq> rhs" and "capacity (vdata (vs ! this)) < vsize (vs ! rhs)"
    and "Vector_copy_ctor T (vs ! rhs) s = (Inr c, s1)"
  shows "Vector_assign T this rhs vs s =
          (Inr (), vs[this := c\<lparr>vsize := vsize (vs ! rhs)\<rparr>], Vector_dtor (vs ! this) s1)"
  using assms
  by (simp add: Vector_assign_def RawMemory_Capacity_def Vector_Swap_def RawMemory_Swap_def Vector_eta)

lemma uninit_copy_ptr:
  assumes "\<forall>n. \<not> throws T CopyCtor n"
    and "bs < length (heap s)" and "heap s ! bs = Some (spre @ map Obj xs @ spost)"
    and "bd < length (heap s)" and "heap s ! bd = Some (pre @ replicate (length xs) Raw @ post)"
    and "bs \<noteq> bd" and "src = Ptr (Some bs) (length spre)" and "dst = Ptr (Some bd) (length pre)"
    and "n = length xs"
  shows "uninitialized_copy_n T src n dst s =
           (Inr (), s\<lparr>heap := (heap s)[bd := Some (pre @ map Obj xs @ post)],
                      trace := trace s @ map (Done CopyCtor) (slots_from bd (length pre) n)\<rparr>)"
  using uninit_copy_ok[OF assms(1-6)] assms(7-9) by simp

lemma assign_in_place:
  assumes ne: "this \<noteq> rhs" and wa: "wf (vs ! this) s" and wr: "wf (vs ! rhs) s"
    and dis: "buffer (vdata (vs ! this)) = None \<or> buffer (vdata (vs ! this)) \<noteq> buffer (vdata (vs ! rhs))"
    and fits: "vsize (vs ! rhs) \<le> capacity (vdata (vs ! this))"
    and nt: "never_throws T"
  shows "\<exists>s'. Vector_assign T this rhs vs s =
             (Inr (), vs[this := (vs ! this)\<lparr>vsize := vsize (vs ! rhs)\<rparr>], s') \<and>
          wf ((vs ! this)\<lparr>vsize := vsize (vs ! rhs)\<rparr>) s' \<and>
          elems ((vs ! this)\<lparr>vsize := vsize (vs ! rhs)\<rparr>) s' = elems (vs ! rhs) s \<and>
          wf (vs ! rhs) s' \<and> elems (vs ! rhs) s' = elems (vs ! rhs) s \<and>
          trace s' = trace s @
            map (Done CopyAssign) (vslots (vs ! this) 0 (min (vsize (vs ! this)) (vsize (vs ! rhs)))) @
            (if vsize (vs ! rhs) < vsize (vs ! this)
             then map Destroyed (vslots (vs ! this) (vsize (vs ! rhs)) (vsize (vs ! this) - vsize (vs ! rhs)))
             else map (Done CopyCtor) (vslots (vs ! this) (vsize (vs ! this)) (vsize (vs ! rhs) - vsize (vs ! this)))) \<and>
          leaked s' = leaked s \<and> fault s' = fault s"
proof -
  let ?a = "vs ! this" and ?r = "vs ! rhs"
  let ?a' = "?a\<lparr>vsize := vsize ?r\<rparr>"
  let ?xs = "elems ?a s" and ?ys = "elems ?r s"
  have lx: "length ?xs = vsize ?a" using wa by (rule length_elems)
  have ly: "length ?ys = vsize ?r" using wr by (rule length_elems)
  have nf: "\<not> capacity (vdata ?a) < vsize ?r" using fits by simp
  have ntc: "\<forall>n. \<not> throws T CopyCtor n" and nta: "\<forall>n. \<not> throws T CopyAssign n"
    using nt by (simp_all add: never_throws_def)
  show ?thesis
  proof (cases "buffer (vdata ?a)")
    case None
    note an = wf_null[OF wa None]
    have r0: "vsize ?r = 0" using fits an by simp
    have ys0: "?ys = []" using ly r0 by simp
    have lp: "assign_loop T ?a ?r 0 s = (Inr 0, s)" by (rule assign_loop_empty) (simp add: r0)
    have cp: "uninitialized_copy_n T (ptr_add (GetAddress (vdata ?r)) 0) (vsize ?r - vsize ?a)
           (ptr_add (GetAddress (vdata ?a)) 0) s = (Inr (), s)"
      by (simp add: r0)
    have res: "Vector_assign T this rhs vs s = (Inr (), vs[this := ?a'], s)"
      by (rule Vector_assign_step_extend[OF ne nf lp _ cp]) (simp add: r0 an)
    have eq: "?a' = ?a" using an(1) r0 by (cases "vs ! this") simp
    show ?thesis unfolding res eq using wa wr an r0 ys0 None by (simp add: vslots_def)
  next
    case (Some bt)
    note wb = wf_block[OF wa Some]
    have brne: "buffer (vdata ?r) \<noteq> Some bt" using dis Some by auto
    let ?ka = "capacity (vdata ?a) - vsize ?a"
    have frame_r: "wf ?r s'" "elems ?r s' = ?ys"
      if "heap s' = (heap s)[bt := blk]" for s' :: "'a state" and blk
    proof -
      have "\<And>b. buffer (vdata ?r) = Some b \<Longrightarrow> b < length (heap s') \<and> heap s' ! b = heap s ! b"
        using that brne wf_block(1)[OF wr] by auto
      from wf_frame[OF wr this] show "wf ?r s'" "elems ?r s' = ?ys" by simp_all
    qed
    show ?thesis
    proof (cases "vsize ?r < vsize ?a")
      case True
      have "\<exists>s1. assign_loop T ?a ?r 0 s = (Inr (vsize ?r), s1) \<and>
               s1 = s\<lparr>heap := (heap s)[bt := Some (map Obj ?ys @ map Obj (drop (vsize ?r) ?xs) @ replicate ?ka Raw)],
                      trace := trace s @ map (Done CopyAssign) (slots_from bt 0 (vsize ?r))\<rparr>"
      proof (cases "buffer (vdata ?r)")
        case None
        note rn = wf_null[OF wr None]
        have "assign_loop T ?a ?r 0 s = (Inr 0, s)" by (rule assign_loop_empty) (simp add: rn)
        then show ?thesis using rn wb(2) by (simp add: heap_same)
      next
        case rb: (Some br)
        note wbr = wf_block[OF wr rb]
        have bne: "bt \<noteq> br" using brne rb by simp
        have ht: "heap s ! bt = Some (map Obj [] @ map Obj ?xs @ replicate ?ka Raw)" using wb(2) by simp
        have hr: "heap s ! br = Some (map Obj [] @ map Obj ?ys @ replicate (capacity (vdata ?r) - vsize ?r) Raw)"
          using wbr(2) by simp
        have "assign_loop T ?a ?r 0 s =
           (Inr (0 + min (length ?xs) (length ?ys)),
            s\<lparr>heap := (heap s)[bt := Some (map Obj [] @ map Obj (take (length ?xs) ?ys) @
                                              map Obj (drop (length ?ys) ?xs) @ replicate ?ka Raw)],
              trace := trace s @ map (Done CopyAssign) (slots_from bt 0 (min (length ?xs) (length ?ys)))\<rparr>)"
          by (rule assign_loop_ok[OF nta Some rb bne wb(1) wbr(1) ht hr])
             (use lx ly wb(4) wbr(4) in simp_all)
        then show ?thesis using True lx ly by (simp add: min_absorb2)
      qed
      then obtain s1 where lp: "assign_loop T ?a ?r 0 s = (Inr (vsize ?r), s1)"
        and s1: "s1 = s\<lparr>heap := (heap s)[bt := Some (map Obj ?ys @ map Obj (drop (vsize ?r) ?xs) @ replicate ?ka Raw)],
                      trace := trace s @ map (Done CopyAssign) (slots_from bt 0 (vsize ?r))\<rparr>"
        by blast
      have res: "Vector_assign T this rhs vs s = (Inr (), vs[this := ?a'],
           destroy_n (ptr_add (GetAddress (vdata ?a)) (vsize ?r)) (vsize ?a - vsize ?r) s1)"
        by (rule Vector_assign_step_shrink[OF ne nf lp True])
      have h1: "heap s1 ! bt = Some (map Obj ?ys @ map Obj (drop (vsize ?r) ?xs) @ replicate ?ka Raw)"
        using wb(1) by (simp add: s1)
      let ?s2 = "s1\<lparr>heap := (heap s1)[bt := Some (map Obj ?ys @ replicate (vsize ?a - vsize ?r) Raw @ replicate ?ka Raw)],
                     trace := trace s1 @ map Destroyed (slots_from bt (length (map Obj ?ys)) (vsize ?a - vsize ?r))\<rparr>"
      have d: "destroy_n (ptr_add (GetAddress (vdata ?a)) (vsize ?r)) (vsize ?a - vsize ?r) s1 = ?s2"
        by (rule destroy_n_ptr[OF _ h1])
           (use wb(1) lx ly in \<open>simp_all add: s1 ptr_add_def GetAddress_def Some\<close>)
      have hb: "heap ?s2 ! bt = Some (map Obj ?ys @ replicate (vsize ?a - vsize ?r + ?ka) Raw)"
        using wb(1) by (simp add: s1 replicate_add)
      have w: "wf ?a' ?s2" "elems ?a' ?s2 = ?ys"
        using wf_intro[of ?a' bt ?s2 ?ys "vsize ?a - vsize ?r + ?ka", OF _ _ hb] Some wb(1,4) ly True
        by (simp_all add: s1)
      have fr: "wf ?r ?s2" "elems ?r ?s2 = ?ys"
        using frame_r[of ?s2] by (simp_all add: s1)
      show ?thesis
        unfolding res d using w fr True Some ly
        by (simp add: s1 vslots_def min_absorb2)
    next
      case False
      have le: "vsize ?a \<le> vsize ?r" using False by simp
      let ?kr = "capacity (vdata ?a) - vsize ?r"
      show ?thesis
      proof (cases "buffer (vdata ?r)")
        case None
        note rn = wf_null[OF wr None]
        have a0: "vsize ?a = 0" using le rn by simp
        have lp: "assign_loop T ?a ?r 0 s = (Inr 0, s)" by (rule assign_loop_empty) (simp add: rn)
        have cp: "uninitialized_copy_n T (ptr_add (GetAddress (vdata ?r)) 0) (vsize ?r - vsize ?a)
           (ptr_add (GetAddress (vdata ?a)) 0) s = (Inr (), s)"
          by (simp add: rn)
        have res: "Vector_assign T this rhs vs s = (Inr (), vs[this := ?a'], s)"
          by (rule Vector_assign_step_extend[OF ne nf lp False cp])
        have eq: "?a' = ?a" using a0 rn(1) by (cases "vs ! this") simp
        have "?xs = []" using lx a0 by simp
        then show ?thesis unfolding res eq using wa wr rn a0 Some by (simp add: vslots_def)
      next
        case rb: (Some br)
        note wbr = wf_block[OF wr rb]
        have bne: "bt \<noteq> br" using brne rb by simp
        have ht: "heap s ! bt = Some (map Obj [] @ map Obj ?xs @ replicate ?ka Raw)" using wb(2) by simp
        have hr: "heap s ! br = Some (map Obj [] @ map Obj ?ys @ replicate (capacity (vdata ?r) - vsize ?r) Raw)"
          using wbr(2) by simp
        let ?s1 = "s\<lparr>heap := (heap s)[bt := Some (map Obj [] @ map Obj (take (length ?xs) ?ys) @
                                              map Obj (drop (length ?ys) ?xs) @ replicate ?ka Raw)],
              trace := trace s @ map (Done CopyAssign) (slots_from bt 0 (min (length ?xs) (length ?ys)))\<rparr>"
        have "assign_loop T ?a ?r 0 s = (Inr (0 + min (length ?xs) (length ?ys)), ?s1)"
          by (rule assign_loop_ok[OF nta Some rb bne wb(1) wbr(1) ht hr])
             (use lx ly wb(4) wbr(4) in simp_all)
        then have lp: "assign_loop T ?a ?r 0 s = (Inr (vsize ?a), ?s1)"
          using le lx ly by (simp add: min_absorb1)
        have ka: "?ka = (vsize ?r - vsize ?a) + ?kr" using le fits by simp
        have h1t: "heap ?s1 ! bt = Some (map Obj (take (vsize ?a) ?ys) @
                     replicate (length (drop (vsize ?a) ?ys)) Raw @ replicate ?kr Raw)"
        proof -
          have rk: "replicate ?ka (Raw :: 'a slot) = replicate (vsize ?r - vsize ?a) Raw @ replicate ?kr Raw"
            by (simp only: ka replicate_add)
          show ?thesis using wb(1) lx ly le by (simp add: rk)
        qed
        have h1r: "heap ?s1 ! br = Some (map Obj (take (vsize ?a) ?ys) @ map Obj (drop (vsize ?a) ?ys) @
                     replicate (capacity (vdata ?r) - vsize ?r) Raw)"
          using wbr(1,2) bne by (simp flip: map_append)
        let ?s2 = "?s1\<lparr>heap := (heap ?s1)[bt := Some (map Obj (take (vsize ?a) ?ys) @
                                 map Obj (drop (vsize ?a) ?ys) @ replicate ?kr Raw)],
                        trace := trace ?s1 @ map (Done CopyCtor)
                            (slots_from bt (length (map Obj (take (vsize ?a) ?ys))) (vsize ?r - vsize ?a))\<rparr>"
        have cp: "uninitialized_copy_n T (ptr_add (GetAddress (vdata ?r)) (vsize ?a)) (vsize ?r - vsize ?a)
           (ptr_add (GetAddress (vdata ?a)) (vsize ?a)) ?s1 = (Inr (), ?s2)"
          by (rule uninit_copy_ptr[OF ntc _ h1r _ h1t])
             (use wb(1) wbr(1) bne ly le in \<open>simp_all add: ptr_add_def GetAddress_def Some rb\<close>)
        have res: "Vector_assign T this rhs vs s = (Inr (), vs[this := ?a'], ?s2)"
          by (rule Vector_assign_step_extend[OF ne nf lp False cp])
        have hb: "heap ?s2 ! bt = Some (map Obj ?ys @ replicate ?kr Raw)"
          using wb(1) by (simp flip: map_append)
        have w: "wf ?a' ?s2" "elems ?a' ?s2 = ?ys"
          using wf_intro[of ?a' bt ?s2 ?ys ?kr, OF _ _ hb] Some wb(1) ly fits
          by simp_all
        have fr: "wf ?r ?s2" "elems ?r ?s2 = ?ys"
          using frame_r[of ?s2] by simp_all
        show ?thesis
          unfolding res using w fr False Some lx ly le
          by (simp add: vslots_def min_absorb1)
      qed
    qed
  qed
qed

lemma assign_realloc:
  assumes ne: "this \<noteq> rhs" and wa: "wf (vs ! this) s" and wr: "wf (vs ! rhs) s"
    and dis: "buffer (vdata (vs ! this)) = None \<or> buffer (vdata (vs ! this)) \<noteq> buffer (vdata (vs ! rhs))"
    and big: "capacity (vdata (vs ! this)) < vsize (vs ! rhs)"
    and bud: "vsize (vs ! rhs) \<le> budget s"
    and nt: "\<forall>n. \<not> throws T CopyCtor n"
  shows "\<exists>s'. Vector_assign T this rhs vs s =
             (Inr (), vs[this := \<lparr>vsize = vsize (vs ! rhs),
                                   vdata = \<lparr>buffer = Some (length (heap s)), capacity = vsize (vs ! rhs)\<rparr>\<rparr>], s') \<and>
          wf \<lparr>vsize = vsize (vs ! rhs),
              vdata = \<lparr>buffer = Some (length (heap s)), capacity = vsize (vs ! rhs)\<rparr>\<rparr> s' \<and>
          elems \<lparr>vsize = vsize (vs ! rhs),
                 vdata = \<lparr>buffer = Some (length (heap s)), capacity = vsize (vs ! rhs)\<rparr>\<rparr> s' = elems (vs ! rhs) s \<and>
          wf (vs ! rhs) s' \<and> elems (vs ! rhs) s' = elems (vs ! rhs) s \<and>
          trace s' = trace s @ Alloc (length (heap s)) (vsize (vs ! rhs)) #
             map (Done CopyCtor) (slots_from (length (heap s)) 0 (vsize (vs ! rhs))) @
             release_events (vs ! this) \<and>
          leaked s' = leaked s \<and> fault s' = fault s"
proof -
  let ?a = "vs ! this" and ?r = "vs ! rhs"
  let ?d = "length (heap s)" and ?n = "vsize ?r"
  let ?c = "\<lparr>vsize = ?n, vdata = \<lparr>buffer = Some ?d, capacity = ?n\<rparr>\<rparr>"
  let ?ys = "elems ?r s"
  let ?s1 = "s\<lparr>heap := heap s @ [Some (map Obj ?ys)], budget := budget s - ?n,
             trace := trace s @ Alloc ?d ?n # map (Done CopyCtor) (slots_from ?d 0 ?n)\<rparr>"
  have pos: "0 < ?n" using big by simp
  have cc: "Vector_copy_ctor T ?r s = (Inr ?c, ?s1)"
    by (rule Vector_copy_ctor_ok[OF wr pos bud nt])
  have res: "Vector_assign T this rhs vs s = (Inr (), vs[this := ?c\<lparr>vsize := ?n\<rparr>], Vector_dtor ?a ?s1)"
    by (rule Vector_assign_step_realloc[OF ne big cc])
  have ceq: "?c\<lparr>vsize := ?n\<rparr> = ?c" by simp
  have wa1: "wf ?a ?s1"
    by (rule wf_frame(1)[OF wa]) (use wf_block(1)[OF wa] in \<open>simp add: nth_append\<close>)
  note dt = Vector_dtor_ok[OF wa1]
  let ?s' = "Vector_dtor ?a ?s1"
  have hd: "heap ?s' ! ?d = Some (map Obj ?ys @ replicate 0 Raw)" and ld: "?d < length (heap ?s')"
  proof -
    show "heap ?s' ! ?d = Some (map Obj ?ys @ replicate 0 Raw)"
    proof (cases "buffer (vdata ?a)")
      case None
      then show ?thesis using dt(2) by simp
    next
      case (Some bt)
      then show ?thesis using dt(2) wf_block(1)[OF wa Some] by simp
    qed
    show "?d < length (heap ?s')"
      using dt(2) by (cases "buffer (vdata ?a)") simp_all
  qed
  have w: "wf ?c ?s'" "elems ?c ?s' = ?ys"
    using wf_intro[of ?c ?d ?s' ?ys 0, OF _ ld hd] length_elems[OF wr] by simp_all
  have "\<And>b. buffer (vdata ?r) = Some b \<Longrightarrow> b < length (heap ?s') \<and> heap ?s' ! b = heap s ! b"
  proof -
    fix b assume rb: "buffer (vdata ?r) = Some b"
    have bl: "b < length (heap s)" by (rule wf_block(1)[OF wr rb])
    show "b < length (heap ?s') \<and> heap ?s' ! b = heap s ! b"
    proof (cases "buffer (vdata ?a)")
      case None
      then show ?thesis using dt(2) bl by (simp add: nth_append)
    next
      case (Some bt)
      then have "bt \<noteq> b" using dis rb by auto
      then show ?thesis using dt(2) bl Some by (simp add: nth_append)
    qed
  qed
  from wf_frame[OF wr this] have fr: "wf ?r ?s'" "elems ?r ?s' = ?ys" by simp_all
  show ?thesis
    unfolding res ceq using w fr dt(1,3,4) by simp
qed

lemma assign_failure_keeps_store:
  "Vector_assign T this rhs vs s = (Inl e, vs', s') \<Longrightarrow> vs' = vs"
  by (auto simp: Vector_assign_def Let_def split: if_splits prod.splits sum.splits)

lemma assign_realloc_strong:
  assumes wa: "wf (vs ! this) s" and wr: "wf (vs ! rhs) s"
    and big: "capacity (vdata (vs ! this)) < vsize (vs ! rhs)"
    and f: "Vector_assign T this rhs vs s = (Inl e, vs', s')"
  shows "wf (vs ! this) s' \<and> elems (vs ! this) s' = elems (vs ! this) s \<and>
         wf (vs ! rhs) s' \<and> elems (vs ! rhs) s' = elems (vs ! rhs) s \<and>
         leaked s' = leaked s \<and> fault s' = fault s"
proof -
  have ne: "this \<noteq> rhs" using f by (auto simp: Vector_assign_def)
  have "Vector_copy_ctor T (vs ! rhs) s = (Inl e, s')"
    using f ne big
    by (auto simp: Vector_assign_def RawMemory_Capacity_def Let_def split: prod.splits sum.splits)
  from Vector_copy_ctor_fails[OF wr this]
  have fr: "length (heap s) \<le> length (heap s')" "\<forall>b<length (heap s). heap s' ! b = heap s ! b"
    and rest: "leaked s' = leaked s" "fault s' = fault s"
    by simp_all
  have a: "\<And>b. buffer (vdata (vs ! this)) = Some b \<Longrightarrow> b < length (heap s') \<and> heap s' ! b = heap s ! b"
    using fr wf_block(1)[OF wa] by fastforce
  have r: "\<And>b. buffer (vdata (vs ! rhs)) = Some b \<Longrightarrow> b < length (heap s') \<and> heap s' ! b = heap s ! b"
    using fr wf_block(1)[OF wr] by fastforce
  from wf_frame[OF wa a] wf_frame[OF wr r] rest show ?thesis by simp
qed

section \<open>Properties of RawMemory\<close>

text \<open>
  C2. After a move construction or a move assignment the moved-from owner should hold no
  block (null handle, capacity 0). The code does otherwise: the move constructor leaves
  the source's capacity as it was, and the move assignment leaves the source untouched,
  so that two owners hold the same block and the second of their destructors releases a
  block that is no longer allocated. Shown on an owner of a block of three raw slots,
  moved into a new owner and move-assigned to an empty owner.
\<close>

theorem RawMemory_move_leaves_source_nonempty:
  "RawMemory_move_ctor \<lparr>buffer = Some 0, capacity = 3\<rparr> =
     (\<lparr>buffer = Some 0, capacity = 3\<rparr>, \<lparr>buffer = None, capacity = 3\<rparr>) \<and>
   RawMemory_move_assign 0 1 [\<lparr>buffer = None, capacity = 0\<rparr>, \<lparr>buffer = Some 0, capacity = 3\<rparr>]
       (state_of [] 3) =
     ([\<lparr>buffer = Some 0, capacity = 3\<rparr>, \<lparr>buffer = Some 0, capacity = 3\<rparr>], state_of [] 3) \<and>
   fault (RawMemory_dtor \<lparr>buffer = Some 0, capacity = 3\<rparr>
           (RawMemory_dtor \<lparr>buffer = Some 0, capacity = 3\<rparr> (state_of [] 3)))"
  by (simp add: RawMemory_move_ctor_def RawMemory_move_assign_def RawMemory_dtor_def Deallocate_def
      state_of_def ub_def)

section \<open>Properties of Vector\<close>

text \<open>
  C5. Emplace (and so Insert, which forwards to it) at a position \<open>p\<close> with
  \<open>0 \<le> p \<le> size\<close> of a well-formed vector, when no element operation throws and the
  allocator can serve a reallocation if one is needed: the vector afterwards holds the old
  elements before \<open>p\<close>, then the new element, then the old elements from \<open>p\<close> on, and the
  returned iterator points at the slot holding the new element.
\<close>

theorem Emplace_inserts:
  assumes "wf v s" and "p \<le> vsize v" and "never_throws T"
    and "vsize v < capacity (vdata v) \<or> grown (vsize v) \<le> budget s"
  shows "\<exists>v' s'. Emplace T (ptr_add (Vector_begin v) p) a v s = (Inr (ptr_add (Vector_begin v') p), v', s') \<and>
           wf v' s' \<and>
           elems v' s' = take p (elems v s) @ args_val a # drop p (elems v s) \<and>
           slot_at s' (ptr_add (Vector_begin v') p) = Some (Obj (args_val a)) \<and>
           leaked s' = leaked s \<and> fault s' = fault s"
proof -
  from Emplace_ok[OF assms, of a] obtain v' s' where
    e: "Emplace T (ptr_add (Vector_begin v) p) a v s = (Inr (ptr_add (Vector_begin v') p), v', s')"
    and w: "wf v' s'" and sz: "vsize v' = Suc (vsize v)"
    and el: "elems v' s' = take p (elems v s) @ args_val a # drop p (elems v s)"
    and rest: "leaked s' = leaked s" "fault s' = fault s"
    by blast
  have "length (elems v s) = vsize v" using assms(1) by (rule length_elems)
  then have "elems v' s' ! p = args_val a"
    using el assms(2) by (simp add: nth_append)
  moreover have "p < vsize v'" using sz assms(2) by simp
  ultimately have "slot_at s' (ptr_add (Vector_begin v') p) = Some (Obj (args_val a))"
    using slot_of_elem[OF w, of p] by simp
  with e w el rest show ?thesis by blast
qed

theorem Emplace_inserts_witness:
  "wf (vector_of [1, 2, 4] 1) (state_of [1, 2, 4] 1) \<and> 2 \<le> vsize (vector_of [1, 2, 4] 1) \<and>
   never_throws int_like \<and>
   vsize (vector_of [1, 2, 4] 1) < capacity (vdata (vector_of [1, 2, 4] 1)) \<and>
   elems (vector_of [1, 2, 4] 1) (state_of [1, 2, 4] 1) = [1, 2, 4] \<and>
   (\<exists>v' s'. Insert_copy int_like (ptr_add (Vector_begin (vector_of [1, 2, 4] 1)) 2) 3
               (vector_of [1, 2, 4] 1) (state_of [1, 2, 4] 1) =
               (Inr (ptr_add (Vector_begin v') 2), v', s') \<and>
            elems v' s' = [1, 2, 3, 4] \<and>
            slot_at s' (ptr_add (Vector_begin v') 2) = Some (Obj 3))"
proof -
  let ?v = "vector_of [1, 2, 4] 1" and ?s = "state_of [1, 2, 4] 1"
  have h1: "wf ?v ?s" by (rule wf_example)
  have h2: "2 \<le> vsize ?v" by (simp add: vector_of_def)
  have h3: "never_throws int_like" by (rule never_throws_int_like)
  have h4: "vsize ?v < capacity (vdata ?v)" by (simp add: vector_of_def)
  have e: "elems ?v ?s = [1, 2, 4]" by (rule elems_example)
  from Emplace_inserts[OF h1 h2 h3 disjI1[OF h4], of "CopyOf 3"]
  obtain v' s' where
    "Emplace int_like (ptr_add (Vector_begin ?v) 2) (CopyOf 3) ?v ?s = (Inr (ptr_add (Vector_begin v') 2), v', s')"
    and "elems v' s' = take 2 (elems ?v ?s) @ args_val (CopyOf 3) # drop 2 (elems ?v ?s)"
    and "slot_at s' (ptr_add (Vector_begin v') 2) = Some (Obj (args_val (CopyOf (3::nat))))"
    by blast
  then have "Insert_copy int_like (ptr_add (Vector_begin ?v) 2) 3 ?v ?s = (Inr (ptr_add (Vector_begin v') 2), v', s') \<and>
            elems v' s' = [1, 2, 3, 4] \<and> slot_at s' (ptr_add (Vector_begin v') 2) = Some (Obj 3)"
    using e by (simp add: Insert_copy_def)
  then show ?thesis using h1 h2 h3 h4 e by blast
qed

text \<open>
  C9. \<^verbatim>\<open>Reserve(newCap)\<close> with \<open>newCap\<close> at most the current capacity does nothing: the
  vector (size, capacity, the block it owns) and the whole state (every slot of every
  block, hence every element value and address) are returned as they were.
\<close>

theorem Reserve_noop:
  "new_capacity \<le> capacity (vdata v) \<Longrightarrow> Reserve T new_capacity v s = (Inr (), v, s)"
  by (simp add: Reserve_def Vector_Capacity_def RawMemory_Capacity_def)

theorem Reserve_noop_witness:
  "(3::nat) \<le> capacity (vdata (vector_of [1, 2, 4] 1)) \<and>
   Reserve int_like 3 (vector_of [1, 2, 4] 1) (state_of [1, 2, 4] 1) =
     (Inr (), vector_of [1, 2, 4] 1, state_of [1, 2, 4] 1)"
proof -
  have h: "(3::nat) \<le> capacity (vdata (vector_of [1, 2, 4] 1))" by (simp add: vector_of_def)
  from Reserve_noop[OF h] h show ?thesis by simp
qed

text \<open>
  C10. Copy self-assignment \<^verbatim>\<open>v = v\<close> is a no-op: the guard \<^verbatim>\<open>this != &rhs\<close> returns at
  once, so the store of vectors and the state (sizes, capacities, element values, the
  trace of destructions and allocations) are unchanged.
\<close>

theorem self_assignment_noop:
  "Vector_assign T this this vs s = (Inr (), vs, s)"
  by (simp add: Vector_assign_def)

text \<open>
  C1. A reallocation in which a copy throws should leave the vector as it was and leak
  nothing. \<^verbatim>\<open>RealocationEmplace\<close> breaks the second half: it constructs the new element
  in the new storage first, and when a relocating copy then throws, nothing destroys that
  element before the storage is released. Shown on \<^verbatim>\<open>PushBack(const T&)\<close> to the full
  vector \<open>[7]\<close> with a copy constructor that throws on its second invocation: the vector
  and its block are unchanged, the new block is released, and one object is leaked.
  \<^verbatim>\<open>Reserve\<close> on the same vector, with a copy that throws at once, leaks nothing.
\<close>

theorem RealocationEmplace_leaks_on_throwing_copy:
  "wf (vector_of [7] 0) (state_of [7] 0) \<and>
   (\<exists>s'. PushBack (throwing_copy 2) (CopyOf 9) (vector_of [7] 0) (state_of [7] 0) =
            (Inl (ElemThrow CopyCtor), vector_of [7] 0, s') \<and>
          heap s' = [Some [Obj 7], None] \<and>
          trace s' = [Alloc 1 2, Done CopyCtor (Mem (Ptr (Some 1) 1)),
                      Threw CopyCtor (Mem (Ptr (Some 1) 0)), Free 1] \<and>
          leaked s' = 1) \<and>
   (\<exists>s'. Reserve (throwing_copy 1) 2 (vector_of [7] 0) (state_of [7] 0) =
            (Inl (ElemThrow CopyCtor), vector_of [7] 0, s') \<and>
          heap s' = [Some [Obj 7], None] \<and>
          trace s' = [Alloc 1 2, Threw CopyCtor (Mem (Ptr (Some 1) 0)), Free 1] \<and>
          leaked s' = 0)"
  by (simp add: wf_def vector_of_def state_of_def throwing_copy_def PushBack_def EmplaceBack_def
      Emplace_def Vector_Capacity_def RawMemory_Capacity_def RealocationEmplace_def Vector_end_def
      Vector_begin_def GetAddress_def ptr_add_def ptr_diff_def RawMemory_ctor_def Allocate_def
      RawMemory_plus_def construct_at_def invocations_def slot_at_def put_def log_def
      relocate_around_def copy_construct_def RawMemory_dtor_def Deallocate_def numeral_2_eq_2
      Reserve_def FillTmpData_def)

text \<open>
  C7. \<^verbatim>\<open>Erase\<close> at a position \<open>p < size\<close> of a well-formed vector whose move assignment
  does not throw: each element after \<open>p\<close> is move-assigned one slot to the left (in
  ascending order), the last slot is destroyed, the size drops by one; the storage is the
  same block (nothing is allocated or released, the capacity is unchanged), the elements
  are the old ones without the one at \<open>p\<close>, and the returned iterator is the position
  \<open>p\<close>, which holds the old element \<open>p + 1\<close> when there is one.
\<close>

theorem Erase_removes:
  assumes "wf v s" and "p < vsize v" and "\<forall>n. \<not> throws T MoveAssign n"
  shows "\<exists>s'. Erase T (ptr_add (Vector_begin v) p) v s =
              (Inr (ptr_add (Vector_begin v) p), v\<lparr>vsize := vsize v - 1\<rparr>, s') \<and>
          wf (v\<lparr>vsize := vsize v - 1\<rparr>) s' \<and>
          elems (v\<lparr>vsize := vsize v - 1\<rparr>) s' = take p (elems v s) @ drop (Suc p) (elems v s) \<and>
          trace s' = trace s @ map (Done MoveAssign) (vslots v p (vsize v - Suc p)) @
                       [Destroyed (Mem (ptr_add (Vector_begin v) (vsize v - 1)))] \<and>
          (Suc p < vsize v \<longrightarrow>
             slot_at s' (ptr_add (Vector_begin v) p) = Some (Obj (elems v s ! Suc p))) \<and>
          length (heap s') = length (heap s) \<and>
          budget s' = budget s \<and> leaked s' = leaked s \<and> fault s' = fault s"
proof -
  let ?v' = "v\<lparr>vsize := vsize v - 1\<rparr>"
  from Erase_ok[OF assms] obtain s' where
    e: "Erase T (ptr_add (Vector_begin v) p) v s = (Inr (ptr_add (Vector_begin v) p), ?v', s')"
    and w: "wf ?v' s'"
    and el: "elems ?v' s' = take p (elems v s) @ drop (Suc p) (elems v s)"
    and tr: "trace s' = trace s @ map (Done MoveAssign) (vslots v p (vsize v - Suc p)) @
                       [Destroyed (Mem (ptr_add (Vector_begin v) (vsize v - 1)))]"
    and hp: "heap s' = (heap s)[the (buffer (vdata v)) := heap s' ! the (buffer (vdata v))]"
    and rest: "budget s' = budget s" "leaked s' = leaked s" "fault s' = fault s"
    by blast
  have len: "length (elems v s) = vsize v" using assms(1) by (rule length_elems)
  have nxt: "slot_at s' (ptr_add (Vector_begin v) p) = Some (Obj (elems v s ! Suc p))"
    if "Suc p < vsize v"
  proof -
    have "p < vsize ?v'" using that by simp
    from slot_of_elem[OF w this]
    have "slot_at s' (ptr_add (Vector_begin v) p) = Some (Obj (elems ?v' s' ! p))"
      by (simp add: Vector_begin_def)
    moreover have "elems ?v' s' ! p = elems v s ! Suc p"
      using el len that by (simp add: nth_append)
    ultimately show ?thesis by simp
  qed
  have "length (heap s') = length (heap s)"
    using hp by (metis length_list_update)
  with e w el tr nxt rest show ?thesis by blast
qed


theorem Erase_removes_witness:
  "wf (vector_of [1, 2, 3, 4] 0) (state_of [1, 2, 3, 4] 0) \<and>
   1 < vsize (vector_of [1, 2, 3, 4] 0) \<and>
   elems (vector_of [1, 2, 3, 4] 0) (state_of [1, 2, 3, 4] 0) = [1, 2, 3, 4] \<and>
   (\<exists>s'. Erase int_like (ptr_add (Vector_begin (vector_of [1, 2, 3, 4] 0)) 1)
             (vector_of [1, 2, 3, 4] 0) (state_of [1, 2, 3, 4] 0) =
             (Inr (ptr_add (Vector_begin (vector_of [1, 2, 3, 4] 0)) 1),
              (vector_of [1, 2, 3, 4] 0)\<lparr>vsize := 3\<rparr>, s') \<and>
          elems ((vector_of [1, 2, 3, 4] 0)\<lparr>vsize := 3\<rparr>) s' = [1, 3, 4] \<and>
          slot_at s' (ptr_add (Vector_begin (vector_of [1, 2, 3, 4] 0)) 1) = Some (Obj 3) \<and>
          trace s' = [Done MoveAssign (Mem (Ptr (Some 0) 1)), Done MoveAssign (Mem (Ptr (Some 0) 2)),
                      Destroyed (Mem (Ptr (Some 0) 3))])"
proof -
  let ?v = "vector_of [1, 2, 3, 4] 0" and ?s = "state_of [1, 2, 3, 4] 0"
  have h1: "wf ?v ?s" by (rule wf_example)
  have h2: "1 < vsize ?v" by (simp add: vector_of_def)
  have h3: "\<forall>n. \<not> throws int_like MoveAssign n" by (simp add: int_like_def)
  have e: "elems ?v ?s = [1, 2, 3, 4]" by (rule elems_example)
  have sz: "vsize ?v - 1 = 3" "Suc 1 < vsize ?v" by (simp_all add: vector_of_def)
  have el: "take 1 (elems ?v ?s) @ drop (Suc 1) (elems ?v ?s) = [1, 3, 4]"
    unfolding e by simp
  have nx: "elems ?v ?s ! Suc 1 = 3" unfolding e by simp
  have tr: "trace ?s @ map (Done MoveAssign) (vslots ?v 1 (vsize ?v - Suc 1)) @
                       [Destroyed (Mem (ptr_add (Vector_begin ?v) 3))] =
            [Done MoveAssign (Mem (Ptr (Some 0) 1)), Done MoveAssign (Mem (Ptr (Some 0) 2)),
                      Destroyed (Mem (Ptr (Some 0) 3))]"
    by (simp add: vslots_def vector_of_def state_of_def Vector_begin_def GetAddress_def ptr_add_def
        numeral_2_eq_2)
  from Erase_removes[OF h1 h2 h3] obtain s' where
    "Erase int_like (ptr_add (Vector_begin ?v) 1) ?v ?s =
       (Inr (ptr_add (Vector_begin ?v) 1), ?v\<lparr>vsize := vsize ?v - 1\<rparr>, s')"
    and "elems (?v\<lparr>vsize := vsize ?v - 1\<rparr>) s' = take 1 (elems ?v ?s) @ drop (Suc 1) (elems ?v ?s)"
    and "trace s' = trace ?s @ map (Done MoveAssign) (vslots ?v 1 (vsize ?v - Suc 1)) @
                       [Destroyed (Mem (ptr_add (Vector_begin ?v) (vsize ?v - 1)))]"
    and "Suc 1 < vsize ?v \<longrightarrow>
             slot_at s' (ptr_add (Vector_begin ?v) 1) = Some (Obj (elems ?v ?s ! Suc 1))"
    by blast
  then have "Erase int_like (ptr_add (Vector_begin ?v) 1) ?v ?s =
             (Inr (ptr_add (Vector_begin ?v) 1), ?v\<lparr>vsize := 3\<rparr>, s') \<and>
          elems (?v\<lparr>vsize := 3\<rparr>) s' = [1, 3, 4] \<and>
          slot_at s' (ptr_add (Vector_begin ?v) 1) = Some (Obj 3) \<and>
          trace s' = [Done MoveAssign (Mem (Ptr (Some 0) 1)), Done MoveAssign (Mem (Ptr (Some 0) 2)),
                      Destroyed (Mem (Ptr (Some 0) 3))]"
    unfolding el nx sz(1) tr using sz(2) by blast
  then show ?thesis using h1 h2 e by blast
qed

text \<open>
  C8. \<^verbatim>\<open>Resize(newSize)\<close>. Whatever fails, the size is not touched: an exception leaves
  it as it was (it is written last). Shrinking a well-formed vector destroys exactly the
  slots \<open>[newSize, size)\<close>, in that order, and keeps the first \<open>newSize\<close> elements. Growing
  it, when nothing throws and, if the capacity does not suffice, the request for \<open>newSize\<close>
  slots fits \<^verbatim>\<open>size_t\<close> (its byte count \<^verbatim>\<open>newSize * sizeof(T)\<close> does not wrap around) and the
  allocator can serve it, first reserves and then value-initializes the slots
  \<open>[size, newSize)\<close> of the storage the reservation left. Afterwards the size is \<open>newSize\<close>.
\<close>

theorem Resize_resizes:
  "(\<forall>e v' s'. Resize T n v s = (Inl e, v', s') \<longrightarrow> vsize v' = vsize v) \<and>
   (wf v s \<and> n \<le> vsize v \<longrightarrow>
      (\<exists>s'. Resize T n v s = (Inr (), v\<lparr>vsize := n\<rparr>, s') \<and>
            wf (v\<lparr>vsize := n\<rparr>) s' \<and> elems (v\<lparr>vsize := n\<rparr>) s' = take n (elems v s) \<and>
            trace s' = trace s @ map Destroyed (vslots v n (vsize v - n)) \<and>
            leaked s' = leaked s \<and> fault s' = fault s)) \<and>
   (wf v s \<and> vsize v < n \<and> never_throws T \<and>
    (capacity (vdata v) < n \<longrightarrow> request_fits T n \<and> n \<le> budget s) \<longrightarrow>
      (\<exists>v1 s1 s'. Reserve T n v s = (Inr (), v1, s1) \<and>
            Resize T n v s = (Inr (), v1\<lparr>vsize := n\<rparr>, s') \<and>
            wf (v1\<lparr>vsize := n\<rparr>) s' \<and>
            elems (v1\<lparr>vsize := n\<rparr>) s' = elems v s @ replicate (n - vsize v) (value_init T) \<and>
            trace s' = trace s1 @ map (Done ValueCtor) (vslots v1 (vsize v) (n - vsize v)) \<and>
            leaked s' = leaked s \<and> fault s' = fault s))"
proof (intro conjI allI impI)
  fix e v' s'
  assume "Resize T n v s = (Inl e, v', s')"
  then show "vsize v' = vsize v" by (rule Resize_failure_keeps_size)
next
  assume a: "wf v s \<and> n \<le> vsize v"
  from Resize_shrinks[of v s n T] a
  show "\<exists>s'. Resize T n v s = (Inr (), v\<lparr>vsize := n\<rparr>, s') \<and>
            wf (v\<lparr>vsize := n\<rparr>) s' \<and> elems (v\<lparr>vsize := n\<rparr>) s' = take n (elems v s) \<and>
            trace s' = trace s @ map Destroyed (vslots v n (vsize v - n)) \<and>
            leaked s' = leaked s \<and> fault s' = fault s"
    by blast
next
  assume a: "wf v s \<and> vsize v < n \<and> never_throws T \<and>
    (capacity (vdata v) < n \<longrightarrow> request_fits T n \<and> n \<le> budget s)"
  then have "wf v s" "vsize v < n" "\<forall>k. \<not> throws T (relocation_op T) k" "\<forall>k. \<not> throws T ValueCtor k"
    "capacity (vdata v) < n \<longrightarrow> n \<le> budget s"
    by (simp_all add: never_throws_def)
  from Resize_grows[OF this]
  show "\<exists>v1 s1 s'. Reserve T n v s = (Inr (), v1, s1) \<and>
            Resize T n v s = (Inr (), v1\<lparr>vsize := n\<rparr>, s') \<and>
            wf (v1\<lparr>vsize := n\<rparr>) s' \<and>
            elems (v1\<lparr>vsize := n\<rparr>) s' = elems v s @ replicate (n - vsize v) (value_init T) \<and>
            trace s' = trace s1 @ map (Done ValueCtor) (vslots v1 (vsize v) (n - vsize v)) \<and>
            leaked s' = leaked s \<and> fault s' = fault s" .
qed

theorem Resize_resizes_witness:
  "wf (vector_of [1, 2, 3, 4] 0) (state_of [1, 2, 3, 4] 0) \<and>
   2 \<le> vsize (vector_of [1, 2, 3, 4] 0) \<and>
   (\<exists>s'. Resize int_like 2 (vector_of [1, 2, 3, 4] 0) (state_of [1, 2, 3, 4] 0) =
            (Inr (), (vector_of [1, 2, 3, 4] 0)\<lparr>vsize := 2\<rparr>, s') \<and>
          elems ((vector_of [1, 2, 3, 4] 0)\<lparr>vsize := 2\<rparr>) s' = [1, 2] \<and>
          trace s' = [Destroyed (Mem (Ptr (Some 0) 2)), Destroyed (Mem (Ptr (Some 0) 3))]) \<and>
   wf (vector_of [1, 2] 0) (state_of [1, 2] 0) \<and> vsize (vector_of [1, 2] 0) < 6 \<and>
   never_throws int_like \<and> request_fits int_like 6 \<and> 6 \<le> budget (state_of [1, 2] 0) \<and>
   (\<exists>v1 s1 s'. Reserve int_like 6 (vector_of [1, 2] 0) (state_of [1, 2] 0) = (Inr (), v1, s1) \<and>
          Resize int_like 6 (vector_of [1, 2] 0) (state_of [1, 2] 0) = (Inr (), v1\<lparr>vsize := 6\<rparr>, s') \<and>
          elems (v1\<lparr>vsize := 6\<rparr>) s' = [1, 2, 0, 0, 0, 0] \<and>
          trace s' = trace s1 @ [Done ValueCtor (Mem (Ptr (Some 1) 2)), Done ValueCtor (Mem (Ptr (Some 1) 3)),
                                 Done ValueCtor (Mem (Ptr (Some 1) 4)), Done ValueCtor (Mem (Ptr (Some 1) 5))]) \<and>
   (\<exists>e v' s'. Resize (throwing_value_init 2) 6 (vector_of [1, 2] 0) (state_of [1, 2] 0) = (Inl e, v', s') \<and>
          vsize v' = vsize (vector_of [1, 2] 0))"
proof -
  let ?v4 = "vector_of [1, 2, 3, 4] 0" and ?s4 = "state_of [1, 2, 3, 4] 0"
  let ?v2 = "vector_of [1, 2] 0" and ?s2 = "state_of [1, 2] 0"
  have a1: "wf ?v4 ?s4" by (rule wf_example)
  have a2: "2 \<le> vsize ?v4" by (simp add: vector_of_def)
  have A: "\<exists>s'. Resize int_like 2 ?v4 ?s4 = (Inr (), ?v4\<lparr>vsize := 2\<rparr>, s') \<and>
          elems (?v4\<lparr>vsize := 2\<rparr>) s' = [1, 2] \<and>
          trace s' = [Destroyed (Mem (Ptr (Some 0) 2)), Destroyed (Mem (Ptr (Some 0) 3))]"
  proof -
    have t: "take 2 (elems ?v4 ?s4) = [1, 2]" by (simp add: elems_example)
    have tr: "trace ?s4 @ map Destroyed (vslots ?v4 2 (vsize ?v4 - 2)) =
        [Destroyed (Mem (Ptr (Some 0) 2)), Destroyed (Mem (Ptr (Some 0) 3))]"
      by code_simp
    from Resize_resizes[of int_like 2 ?v4 ?s4] a1 a2
    have "\<exists>s'. Resize int_like 2 ?v4 ?s4 = (Inr (), ?v4\<lparr>vsize := 2\<rparr>, s') \<and>
            wf (?v4\<lparr>vsize := 2\<rparr>) s' \<and> elems (?v4\<lparr>vsize := 2\<rparr>) s' = take 2 (elems ?v4 ?s4) \<and>
            trace s' = trace ?s4 @ map Destroyed (vslots ?v4 2 (vsize ?v4 - 2)) \<and>
            leaked s' = leaked ?s4 \<and> fault s' = fault ?s4"
      by blast
    then show ?thesis unfolding t tr by blast
  qed
  have b1: "wf ?v2 ?s2" by (rule wf_example)
  have b2: "vsize ?v2 < 6" by (simp add: vector_of_def)
  have b3: "never_throws int_like" by (rule never_throws_int_like)
  have b4: "6 \<le> budget ?s2" by (simp add: state_of_def)
  have b5: "request_fits int_like 6" by (simp add: request_fits_def int_like_def SIZE_MAX_def)
  let ?V1 = "\<lparr>vsize = 2, vdata = \<lparr>buffer = Some 1, capacity = 6\<rparr>\<rparr>"
  have B: "\<exists>v1 s1 s'. Reserve int_like 6 ?v2 ?s2 = (Inr (), v1, s1) \<and>
          Resize int_like 6 ?v2 ?s2 = (Inr (), v1\<lparr>vsize := 6\<rparr>, s') \<and>
          elems (v1\<lparr>vsize := 6\<rparr>) s' = [1, 2, 0, 0, 0, 0] \<and>
          trace s' = trace s1 @ [Done ValueCtor (Mem (Ptr (Some 1) 2)), Done ValueCtor (Mem (Ptr (Some 1) 3)),
                                 Done ValueCtor (Mem (Ptr (Some 1) 4)), Done ValueCtor (Mem (Ptr (Some 1) 5))]"
  proof -
    have rv: "fst (snd (Reserve int_like 6 ?v2 ?s2)) = ?V1" by code_simp
    have el: "elems ?v2 ?s2 @ replicate (6 - vsize ?v2) (value_init int_like) = [1, 2, 0, 0, 0, 0]"
      unfolding elems_example by code_simp
    have vs: "map (Done ValueCtor) (vslots ?V1 (vsize ?v2) (6 - vsize ?v2)) =
           [Done ValueCtor (Mem (Ptr (Some 1) 2)), Done ValueCtor (Mem (Ptr (Some 1) 3)),
            Done ValueCtor (Mem (Ptr (Some 1) 4)), Done ValueCtor (Mem (Ptr (Some 1) 5))]"
      by code_simp
    from Resize_resizes[of int_like 6 ?v2 ?s2] b1 b2 b3 b4 b5
    obtain v1 s1 s' where r: "Reserve int_like 6 ?v2 ?s2 = (Inr (), v1, s1)"
      and z: "Resize int_like 6 ?v2 ?s2 = (Inr (), v1\<lparr>vsize := 6\<rparr>, s')"
      and e: "elems (v1\<lparr>vsize := 6\<rparr>) s' = elems ?v2 ?s2 @ replicate (6 - vsize ?v2) (value_init int_like)"
      and t: "trace s' = trace s1 @ map (Done ValueCtor) (vslots v1 (vsize ?v2) (6 - vsize ?v2))"
      by blast
    have v1: "v1 = ?V1" using rv r by simp
    show ?thesis using r z e t unfolding el v1 vs by blast
  qed
  have C: "\<exists>e v' s'. Resize (throwing_value_init 2) 6 ?v2 ?s2 = (Inl e, v', s') \<and> vsize v' = vsize ?v2"
  proof -
    have "fst (Resize (throwing_value_init 2) 6 ?v2 ?s2) = Inl (ElemThrow ValueCtor)" by code_simp
    then obtain v' s' where
      f: "Resize (throwing_value_init 2) 6 ?v2 ?s2 = (Inl (ElemThrow ValueCtor), v', s')"
      by (metis prod.collapse)
    from Resize_resizes[of "throwing_value_init 2" 6 ?v2 ?s2] f
    have "vsize v' = vsize ?v2" by blast
    with f show ?thesis by blast
  qed
  from a1 a2 A b1 b2 b3 b5 b4 B C show ?thesis by blast
qed

text \<open>
  C6. Appending with \<^verbatim>\<open>PushBack\<close> to a well-formed vector, when nothing throws and the
  allocator can serve a reallocation if one is needed: the capacity stays as it is while
  there is room, and becomes \<open>max 1 (2 * size)\<close> when the vector is full. Hence the
  capacities after the first, second, ... append to an empty vector are the powers of two
  1, 2, 4, 4, 8, ...: after \<open>k\<close> appends the capacity is the power of two \<open>c\<close> with
  \<open>k \<le> c < 2 * k\<close>.
\<close>

theorem capacity_doubles:
  "(wf v s \<and> never_throws T \<and> (vsize v < capacity (vdata v) \<or> grown (vsize v) \<le> budget s) \<longrightarrow>
      (\<exists>v' s'. PushBack T a v s = (Inr (), v', s') \<and> wf v' s' \<and>
          elems v' s' = elems v s @ [args_val a] \<and>
          capacity (vdata v') =
            (if vsize v < capacity (vdata v) then capacity (vdata v) else max 1 (2 * vsize v)))) \<and>
   (never_throws T \<and> 3 * length as \<le> budget s \<longrightarrow>
      (\<exists>cs v' s'. push_all T as Vector_default s = (cs, v', s') \<and> length cs = length as \<and>
          (\<forall>k<length as. \<exists>e. cs ! k = 2 ^ e \<and> Suc k \<le> cs ! k \<and> cs ! k < 2 * Suc k)))"
proof (intro conjI impI)
  assume a: "wf v s \<and> never_throws T \<and> (vsize v < capacity (vdata v) \<or> grown (vsize v) \<le> budget s)"
  have g: "grown (vsize v) = max 1 (2 * vsize v)" by (simp add: grown_def)
  from a PushBack_ok[of v s T a]
  show "\<exists>v' s'. PushBack T a v s = (Inr (), v', s') \<and> wf v' s' \<and>
          elems v' s' = elems v s @ [args_val a] \<and>
          capacity (vdata v') =
            (if vsize v < capacity (vdata v) then capacity (vdata v) else max 1 (2 * vsize v))"
    unfolding g by blast
next
  assume a: "never_throws T \<and> 3 * length as \<le> budget s"
  then have b: "3 * (vsize Vector_default + length as) \<le> budget s + capacity (vdata Vector_default)"
    by (simp add: Vector_default_def RawMemory_default_def)
  have z: "vsize Vector_default = 0" by (simp add: Vector_default_def)
  from push_all_caps[OF wf_default(1) _ wf_default(3) b, of T] a
  show "\<exists>cs v' s'. push_all T as Vector_default s = (cs, v', s') \<and> length cs = length as \<and>
          (\<forall>k<length as. \<exists>e. cs ! k = 2 ^ e \<and> Suc k \<le> cs ! k \<and> cs ! k < 2 * Suc k)"
    unfolding z by (simp only: add_0) blast
qed


theorem capacity_doubles_witness:
  "wf (vector_of [1, 2] 0) (state_of [1, 2] 0) \<and> never_throws int_like \<and>
   grown (vsize (vector_of [1, 2] 0)) \<le> budget (state_of [1, 2] 0) \<and>
   (\<exists>v' s'. PushBack int_like (Args 3) (vector_of [1, 2] 0) (state_of [1, 2] 0) = (Inr (), v', s') \<and>
       elems v' s' = [1, 2, 3] \<and> capacity (vdata v') = 4) \<and>
   3 * length [Args 10, Args 20, Args 30, Args 40, Args (50::nat)] \<le> budget fresh_state \<and>
   (\<exists>v' s'. push_all int_like [Args 10, Args 20, Args 30, Args 40, Args 50] Vector_default fresh_state =
       ([1, 2, 4, 4, 8], v', s'))"
proof -
  let ?v = "vector_of [1, 2] 0" and ?s = "state_of [1, 2] 0"
  let ?as = "[Args 10, Args 20, Args 30, Args 40, Args (50::nat)]"
  have h1: "wf ?v ?s" by (rule wf_example)
  have h2: "never_throws int_like" by (rule never_throws_int_like)
  have h3: "grown (vsize ?v) \<le> budget ?s" by (simp add: grown_def vector_of_def state_of_def)
  have h4: "3 * length ?as \<le> budget fresh_state" by (simp add: fresh_state_def)
  have A: "\<exists>v' s'. PushBack int_like (Args 3) ?v ?s = (Inr (), v', s') \<and>
       elems v' s' = [1, 2, 3] \<and> capacity (vdata v') = 4"
  proof -
    have el: "elems ?v ?s @ [args_val (Args (3::nat))] = [1, 2, 3]" by (simp add: elems_example)
    have cp: "(if vsize ?v < capacity (vdata ?v) then capacity (vdata ?v) else max 1 (2 * vsize ?v)) = 4"
      by (simp add: vector_of_def)
    from capacity_doubles[where v = ?v and s = ?s and T = int_like and a = "Args 3"] h1 h2 h3
    have "\<exists>v' s'. PushBack int_like (Args 3) ?v ?s = (Inr (), v', s') \<and> wf v' s' \<and>
          elems v' s' = elems ?v ?s @ [args_val (Args 3)] \<and>
          capacity (vdata v') =
            (if vsize ?v < capacity (vdata ?v) then capacity (vdata ?v) else max 1 (2 * vsize ?v))"
      by blast
    then show ?thesis unfolding el cp by blast
  qed
  have B: "\<exists>v' s'. push_all int_like ?as Vector_default fresh_state = ([1, 2, 4, 4, 8], v', s')"
  proof -
    from capacity_doubles[where T = int_like and as = ?as and s = fresh_state] h2 h4
    obtain cs v' s' where p: "push_all int_like ?as Vector_default fresh_state = (cs, v', s')"
      and "length cs = length ?as"
      by blast
    have "fst (push_all int_like ?as Vector_default fresh_state) = [1, 2, 4, 4, 8]" by code_simp
    then have "cs = [1, 2, 4, 4, 8]" using p by simp
    then show ?thesis using p by blast
  qed
  from h1 h2 h3 A h4 B show ?thesis by blast
qed

text \<open>
  C3. Both relocation sites, \<^verbatim>\<open>Reserve\<close> (through \<^verbatim>\<open>FillTmpData\<close>) and
  \<^verbatim>\<open>RealocationEmplace\<close>, test the same condition and so select the same constructor
  \<open>relocation_op\<close>: move when the move construction cannot throw or the type cannot be
  copied, copy otherwise. Their relocation behaviour should then be the same for every
  element type, and with a copy that throws it is not: \<^verbatim>\<open>Reserve\<close> destroys what it has
  built in the new storage before the storage is released, while \<^verbatim>\<open>RealocationEmplace\<close>
  releases the new storage with the new element and the relocated prefix still alive in
  it. Shown on the full vector \<open>[7, 8]\<close> and a copy constructor that throws on its second
  relocating invocation, for \<^verbatim>\<open>Reserve(4)\<close> and for \<^verbatim>\<open>Emplace\<close> at index 1, which also
  allocates 4 slots: both copy, both leave the vector and its block as they were, the first
  leaks nothing and the second leaks two objects.
\<close>

theorem relocation_sites_differ_on_throwing_copy:
  "relocation_op (throwing_copy 2) = CopyCtor \<and>
   wf (vector_of [7, 8] 0) (state_of [7, 8] 0) \<and>
   (\<exists>s'. Reserve (throwing_copy 2) 4 (vector_of [7, 8] 0) (state_of [7, 8] 0) =
            (Inl (ElemThrow CopyCtor), vector_of [7, 8] 0, s') \<and>
          heap s' = [Some [Obj 7, Obj 8], None] \<and>
          trace s' = [Alloc 1 4, Done CopyCtor (Mem (Ptr (Some 1) 0)),
                      Threw CopyCtor (Mem (Ptr (Some 1) 1)),
                      Destroyed (Mem (Ptr (Some 1) 0)), Free 1] \<and>
          leaked s' = 0 \<and> fault s' = False) \<and>
   (\<exists>s'. Emplace (throwing_copy 2) (ptr_add (Vector_begin (vector_of [7, 8] 0)) 1) (Args 9)
            (vector_of [7, 8] 0) (state_of [7, 8] 0) =
            (Inl (ElemThrow CopyCtor), vector_of [7, 8] 0, s') \<and>
          heap s' = [Some [Obj 7, Obj 8], None] \<and>
          trace s' = [Alloc 1 4, Done ArgsCtor (Mem (Ptr (Some 1) 1)),
                      Done CopyCtor (Mem (Ptr (Some 1) 0)),
                      Threw CopyCtor (Mem (Ptr (Some 1) 2)), Free 1] \<and>
          leaked s' = 2 \<and> fault s' = False)"
  by (simp add: relocation_op_def moves_elements_def wf_def vector_of_def state_of_def
      throwing_copy_def Emplace_def Vector_Capacity_def RawMemory_Capacity_def
      RealocationEmplace_def Vector_end_def Vector_begin_def GetAddress_def ptr_add_def
      ptr_diff_def RawMemory_ctor_def Allocate_def RawMemory_plus_def construct_at_def
      invocations_def slot_at_def put_def log_def relocate_around_def copy_construct_def
      destroy_at_def RawMemory_dtor_def Deallocate_def eval_nat_numeral Reserve_def FillTmpData_def)

text \<open>
  C4. Copy assignment \<^verbatim>\<open>a = rhs\<close> of well-formed vectors (\<open>this\<close> and \<open>rhs\<close> their
  addresses; two distinct vectors own distinct blocks). When nothing throws and the
  allocator can serve the copy if one is needed, the operator returns, \<open>a\<close> holds the
  elements of \<open>rhs\<close> and \<open>rhs\<close> is as it was. For distinct vectors with
  \<open>rhs.size \<le> a.capacity\<close> the storage of \<open>a\<close> is kept and the element operations are: copy
  assignments over the slots \<open>[0, min a.size rhs.size)\<close>, then the destruction of the slots
  \<open>[rhs.size, a.size)\<close> if \<open>rhs\<close> is shorter, else the copy construction of the slots
  \<open>[a.size, rhs.size)\<close>. With \<open>rhs.size > a.capacity\<close> a copy of \<open>rhs\<close> is built in fresh
  storage of exactly \<open>rhs.size\<close> slots and swapped in, and the old storage is destroyed and
  released. An exception leaves every vector object, hence the size of \<open>a\<close>, as it was; in
  the reallocating case it also leaves the elements of \<open>a\<close> untouched and leaks nothing.
\<close>

theorem copy_assignment:
  assumes "wf (vs ! this) s" and "wf (vs ! rhs) s" and "this < length vs"
    and "this \<noteq> rhs \<longrightarrow> buffer (vdata (vs ! this)) = None \<or>
                         buffer (vdata (vs ! this)) \<noteq> buffer (vdata (vs ! rhs))"
  shows
   "(never_throws T \<and> (capacity (vdata (vs ! this)) < vsize (vs ! rhs) \<longrightarrow> vsize (vs ! rhs) \<le> budget s) \<longrightarrow>
      (\<exists>vs' s'. Vector_assign T this rhs vs s = (Inr (), vs', s') \<and>
          wf (vs' ! this) s' \<and> elems (vs' ! this) s' = elems (vs ! rhs) s \<and>
          vsize (vs' ! this) = vsize (vs ! rhs) \<and>
          wf (vs ! rhs) s' \<and> elems (vs ! rhs) s' = elems (vs ! rhs) s \<and>
          leaked s' = leaked s \<and> fault s' = fault s \<and>
          (this \<noteq> rhs \<and> vsize (vs ! rhs) \<le> capacity (vdata (vs ! this)) \<longrightarrow>
             vdata (vs' ! this) = vdata (vs ! this) \<and>
             trace s' = trace s @
               map (Done CopyAssign) (vslots (vs ! this) 0 (min (vsize (vs ! this)) (vsize (vs ! rhs)))) @
               (if vsize (vs ! rhs) < vsize (vs ! this)
                then map Destroyed (vslots (vs ! this) (vsize (vs ! rhs)) (vsize (vs ! this) - vsize (vs ! rhs)))
                else map (Done CopyCtor) (vslots (vs ! this) (vsize (vs ! this)) (vsize (vs ! rhs) - vsize (vs ! this))))) \<and>
          (this \<noteq> rhs \<and> capacity (vdata (vs ! this)) < vsize (vs ! rhs) \<longrightarrow>
             capacity (vdata (vs' ! this)) = vsize (vs ! rhs) \<and>
             trace s' = trace s @ Alloc (length (heap s)) (vsize (vs ! rhs)) #
               map (Done CopyCtor) (slots_from (length (heap s)) 0 (vsize (vs ! rhs))) @
               release_events (vs ! this)))) \<and>
    (\<forall>e vs' s'. Vector_assign T this rhs vs s = (Inl e, vs', s') \<longrightarrow>
        vs' = vs \<and>
        (capacity (vdata (vs ! this)) < vsize (vs ! rhs) \<longrightarrow>
           wf (vs ! this) s' \<and> elems (vs ! this) s' = elems (vs ! this) s \<and>
           leaked s' = leaked s \<and> fault s' = fault s))"
proof (intro conjI impI allI)
  assume h: "never_throws T \<and> (capacity (vdata (vs ! this)) < vsize (vs ! rhs) \<longrightarrow> vsize (vs ! rhs) \<le> budget s)"
  let ?goal = "\<exists>vs' s'. Vector_assign T this rhs vs s = (Inr (), vs', s') \<and>
          wf (vs' ! this) s' \<and> elems (vs' ! this) s' = elems (vs ! rhs) s \<and>
          vsize (vs' ! this) = vsize (vs ! rhs) \<and>
          wf (vs ! rhs) s' \<and> elems (vs ! rhs) s' = elems (vs ! rhs) s \<and>
          leaked s' = leaked s \<and> fault s' = fault s \<and>
          (this \<noteq> rhs \<and> vsize (vs ! rhs) \<le> capacity (vdata (vs ! this)) \<longrightarrow>
             vdata (vs' ! this) = vdata (vs ! this) \<and>
             trace s' = trace s @
               map (Done CopyAssign) (vslots (vs ! this) 0 (min (vsize (vs ! this)) (vsize (vs ! rhs)))) @
               (if vsize (vs ! rhs) < vsize (vs ! this)
                then map Destroyed (vslots (vs ! this) (vsize (vs ! rhs)) (vsize (vs ! this) - vsize (vs ! rhs)))
                else map (Done CopyCtor) (vslots (vs ! this) (vsize (vs ! this)) (vsize (vs ! rhs) - vsize (vs ! this))))) \<and>
          (this \<noteq> rhs \<and> capacity (vdata (vs ! this)) < vsize (vs ! rhs) \<longrightarrow>
             capacity (vdata (vs' ! this)) = vsize (vs ! rhs) \<and>
             trace s' = trace s @ Alloc (length (heap s)) (vsize (vs ! rhs)) #
               map (Done CopyCtor) (slots_from (length (heap s)) 0 (vsize (vs ! rhs))) @
               release_events (vs ! this))"
  show ?goal
  proof (cases "this = rhs")
    case True
    then have "Vector_assign T this rhs vs s = (Inr (), vs, s)" by (simp add: Vector_assign_def)
    then show ?thesis using True assms(1) by (intro exI[of _ vs] exI[of _ s]) simp
  next
    case ne: False
    then have dis: "buffer (vdata (vs ! this)) = None \<or>
                         buffer (vdata (vs ! this)) \<noteq> buffer (vdata (vs ! rhs))"
      using assms(4) by simp
    show ?thesis
    proof (cases "capacity (vdata (vs ! this)) < vsize (vs ! rhs)")
      case True
      then have bud: "vsize (vs ! rhs) \<le> budget s" using h by simp
      have ntc: "\<forall>n. \<not> throws T CopyCtor n" using h by (simp add: never_throws_def)
      let ?a' = "\<lparr>vsize = vsize (vs ! rhs),
                   vdata = \<lparr>buffer = Some (length (heap s)), capacity = vsize (vs ! rhs)\<rparr>\<rparr>"
      from assign_realloc[OF ne assms(1,2) dis True bud ntc] obtain s' where
        "Vector_assign T this rhs vs s = (Inr (), vs[this := ?a'], s')"
        "wf ?a' s'" "elems ?a' s' = elems (vs ! rhs) s"
        "wf (vs ! rhs) s'" "elems (vs ! rhs) s' = elems (vs ! rhs) s"
        "trace s' = trace s @ Alloc (length (heap s)) (vsize (vs ! rhs)) #
             map (Done CopyCtor) (slots_from (length (heap s)) 0 (vsize (vs ! rhs))) @
             release_events (vs ! this)"
        "leaked s' = leaked s" "fault s' = fault s"
        by blast
      then show ?thesis using True assms(3)
        by (intro exI[of _ "vs[this := ?a']"] exI[of _ s']) simp
    next
      case False
      then have fits: "vsize (vs ! rhs) \<le> capacity (vdata (vs ! this))" by simp
      have nt: "never_throws T" using h by simp
      let ?a' = "(vs ! this)\<lparr>vsize := vsize (vs ! rhs)\<rparr>"
      from assign_in_place[OF ne assms(1,2) dis fits nt] obtain s' where
        "Vector_assign T this rhs vs s = (Inr (), vs[this := ?a'], s')"
        "wf ?a' s'" "elems ?a' s' = elems (vs ! rhs) s"
        "wf (vs ! rhs) s'" "elems (vs ! rhs) s' = elems (vs ! rhs) s"
        "trace s' = trace s @
            map (Done CopyAssign) (vslots (vs ! this) 0 (min (vsize (vs ! this)) (vsize (vs ! rhs)))) @
            (if vsize (vs ! rhs) < vsize (vs ! this)
             then map Destroyed (vslots (vs ! this) (vsize (vs ! rhs)) (vsize (vs ! this) - vsize (vs ! rhs)))
             else map (Done CopyCtor) (vslots (vs ! this) (vsize (vs ! this)) (vsize (vs ! rhs) - vsize (vs ! this))))"
        "leaked s' = leaked s" "fault s' = fault s"
        by blast
      then show ?thesis using False assms(3)
        by (intro exI[of _ "vs[this := ?a']"] exI[of _ s']) simp
    qed
  qed
next
  fix e vs' s'
  assume "Vector_assign T this rhs vs s = (Inl e, vs', s')"
  then show "vs' = vs" by (rule assign_failure_keeps_store)
next
  fix e vs' s'
  assume f: "Vector_assign T this rhs vs s = (Inl e, vs', s')"
    and big: "capacity (vdata (vs ! this)) < vsize (vs ! rhs)"
  from assign_realloc_strong[OF assms(1,2) big f]
  show "wf (vs ! this) s'" "elems (vs ! this) s' = elems (vs ! this) s"
    "leaked s' = leaked s" "fault s' = fault s"
    by simp_all
qed

theorem copy_assignment_witness:
  "wf (three_vectors ! 0) three_blocks \<and> wf (three_vectors ! 1) three_blocks \<and>
   wf (three_vectors ! 2) three_blocks \<and> never_throws int_like \<and>
   elems (three_vectors ! 0) three_blocks = [1, 2, 3] \<and>
   elems (three_vectors ! 1) three_blocks = [7, 8] \<and>
   elems (three_vectors ! 2) three_blocks = [9] \<and>
   (\<exists>vs' s'. Vector_assign int_like 0 1 three_vectors three_blocks = (Inr (), vs', s') \<and>
       elems (vs' ! 0) s' = [7, 8] \<and> vdata (vs' ! 0) = vdata (three_vectors ! 0) \<and>
       trace s' = [Done CopyAssign (Mem (Ptr (Some 0) 0)), Done CopyAssign (Mem (Ptr (Some 0) 1)),
                   Destroyed (Mem (Ptr (Some 0) 2))]) \<and>
   (\<exists>vs' s'. Vector_assign int_like 2 1 three_vectors three_blocks = (Inr (), vs', s') \<and>
       elems (vs' ! 2) s' = [7, 8] \<and> vdata (vs' ! 2) = vdata (three_vectors ! 2) \<and>
       trace s' = [Done CopyAssign (Mem (Ptr (Some 2) 0)), Done CopyCtor (Mem (Ptr (Some 2) 1))]) \<and>
   (\<exists>vs' s'. Vector_assign int_like 1 0 three_vectors three_blocks = (Inr (), vs', s') \<and>
       elems (vs' ! 1) s' = [1, 2, 3] \<and> capacity (vdata (vs' ! 1)) = 3 \<and>
       trace s' = [Alloc 3 3, Done CopyCtor (Mem (Ptr (Some 3) 0)), Done CopyCtor (Mem (Ptr (Some 3) 1)),
                   Done CopyCtor (Mem (Ptr (Some 3) 2)),
                   Destroyed (Mem (Ptr (Some 1) 0)), Destroyed (Mem (Ptr (Some 1) 1)), Free 1]) \<and>
   (\<exists>vs' s'. Vector_assign int_like 1 1 three_vectors three_blocks = (Inr (), vs', s') \<and>
       elems (vs' ! 1) s' = [7, 8]) \<and>
   (\<exists>e s'. Vector_assign (throwing_copy 2) 1 0 three_vectors three_blocks = (Inl e, three_vectors, s') \<and>
       wf (three_vectors ! 1) s' \<and> elems (three_vectors ! 1) s' = [7, 8] \<and> leaked s' = 0)"
proof -
  let ?V = three_vectors and ?S = three_blocks
  have w: "wf (?V ! 0) ?S" "wf (?V ! 1) ?S" "wf (?V ! 2) ?S" by code_simp+
  have nt: "never_throws int_like" by (rule never_throws_int_like)
  have el: "elems (?V ! 0) ?S = [1, 2, 3]" "elems (?V ! 1) ?S = [7, 8]" "elems (?V ! 2) ?S = [9]"
    by code_simp+
  have len: "0 < length ?V" "1 < length ?V" "2 < length ?V" by (simp_all add: three_vectors_def)
  have dis: "(0::nat) \<noteq> 1 \<longrightarrow> buffer (vdata (?V ! 0)) = None \<or> buffer (vdata (?V ! 0)) \<noteq> buffer (vdata (?V ! 1))"
    "(2::nat) \<noteq> 1 \<longrightarrow> buffer (vdata (?V ! 2)) = None \<or> buffer (vdata (?V ! 2)) \<noteq> buffer (vdata (?V ! 1))"
    "(1::nat) \<noteq> 0 \<longrightarrow> buffer (vdata (?V ! 1)) = None \<or> buffer (vdata (?V ! 1)) \<noteq> buffer (vdata (?V ! 0))"
    "(1::nat) \<noteq> 1 \<longrightarrow> buffer (vdata (?V ! 1)) = None \<or> buffer (vdata (?V ! 1)) \<noteq> buffer (vdata (?V ! 1))"
    by (simp_all add: three_vectors_def)
  have A: "\<exists>vs' s'. Vector_assign int_like 0 1 ?V ?S = (Inr (), vs', s') \<and>
       elems (vs' ! 0) s' = [7, 8] \<and> vdata (vs' ! 0) = vdata (?V ! 0) \<and>
       trace s' = [Done CopyAssign (Mem (Ptr (Some 0) 0)), Done CopyAssign (Mem (Ptr (Some 0) 1)),
                   Destroyed (Mem (Ptr (Some 0) 2))]"
  proof -
    have c: "\<not> capacity (vdata (?V ! 0)) < vsize (?V ! 1)" "(0::nat) \<noteq> 1"
      "vsize (?V ! 1) \<le> capacity (vdata (?V ! 0))"
      by (simp_all add: three_vectors_def)
    have t: "trace ?S @
               map (Done CopyAssign) (vslots (?V ! 0) 0 (min (vsize (?V ! 0)) (vsize (?V ! 1)))) @
               (if vsize (?V ! 1) < vsize (?V ! 0)
                then map Destroyed (vslots (?V ! 0) (vsize (?V ! 1)) (vsize (?V ! 0) - vsize (?V ! 1)))
                else map (Done CopyCtor) (vslots (?V ! 0) (vsize (?V ! 0)) (vsize (?V ! 1) - vsize (?V ! 0)))) =
             [Done CopyAssign (Mem (Ptr (Some 0) 0)), Done CopyAssign (Mem (Ptr (Some 0) 1)),
                   Destroyed (Mem (Ptr (Some 0) 2))]"
      by code_simp
    from copy_assignment[OF w(1) w(2) len(1) dis(1), of int_like] nt c
    show ?thesis unfolding t el by blast
  qed
  have B: "\<exists>vs' s'. Vector_assign int_like 2 1 ?V ?S = (Inr (), vs', s') \<and>
       elems (vs' ! 2) s' = [7, 8] \<and> vdata (vs' ! 2) = vdata (?V ! 2) \<and>
       trace s' = [Done CopyAssign (Mem (Ptr (Some 2) 0)), Done CopyCtor (Mem (Ptr (Some 2) 1))]"
  proof -
    have c: "\<not> capacity (vdata (?V ! 2)) < vsize (?V ! 1)" "(2::nat) \<noteq> 1"
      "vsize (?V ! 1) \<le> capacity (vdata (?V ! 2))"
      by (simp_all add: three_vectors_def)
    have t: "trace ?S @
               map (Done CopyAssign) (vslots (?V ! 2) 0 (min (vsize (?V ! 2)) (vsize (?V ! 1)))) @
               (if vsize (?V ! 1) < vsize (?V ! 2)
                then map Destroyed (vslots (?V ! 2) (vsize (?V ! 1)) (vsize (?V ! 2) - vsize (?V ! 1)))
                else map (Done CopyCtor) (vslots (?V ! 2) (vsize (?V ! 2)) (vsize (?V ! 1) - vsize (?V ! 2)))) =
             [Done CopyAssign (Mem (Ptr (Some 2) 0)), Done CopyCtor (Mem (Ptr (Some 2) 1))]"
      by code_simp
    from copy_assignment[OF w(3) w(2) len(3) dis(2), of int_like] nt c
    show ?thesis unfolding t el by blast
  qed
  have C: "\<exists>vs' s'. Vector_assign int_like 1 0 ?V ?S = (Inr (), vs', s') \<and>
       elems (vs' ! 1) s' = [1, 2, 3] \<and> capacity (vdata (vs' ! 1)) = 3 \<and>
       trace s' = [Alloc 3 3, Done CopyCtor (Mem (Ptr (Some 3) 0)), Done CopyCtor (Mem (Ptr (Some 3) 1)),
                   Done CopyCtor (Mem (Ptr (Some 3) 2)),
                   Destroyed (Mem (Ptr (Some 1) 0)), Destroyed (Mem (Ptr (Some 1) 1)), Free 1]"
  proof -
    have c: "capacity (vdata (?V ! 1)) < vsize (?V ! 0)" "(1::nat) \<noteq> 0" "vsize (?V ! 0) \<le> budget ?S"
      by (simp_all add: three_vectors_def three_blocks_def)
    have sz: "vsize (?V ! 0) = 3" by (simp add: three_vectors_def)
    have t: "trace ?S @ Alloc (length (heap ?S)) 3 #
               map (Done CopyCtor) (slots_from (length (heap ?S)) 0 3) @ release_events (?V ! 1) =
             [Alloc 3 3, Done CopyCtor (Mem (Ptr (Some 3) 0)), Done CopyCtor (Mem (Ptr (Some 3) 1)),
                   Done CopyCtor (Mem (Ptr (Some 3) 2)),
                   Destroyed (Mem (Ptr (Some 1) 0)), Destroyed (Mem (Ptr (Some 1) 1)), Free 1]"
      by code_simp
    from copy_assignment[OF w(2) w(1) len(2) dis(3), of int_like] nt c
    show ?thesis unfolding sz t el by blast
  qed
  have D: "\<exists>vs' s'. Vector_assign int_like 1 1 ?V ?S = (Inr (), vs', s') \<and> elems (vs' ! 1) s' = [7, 8]"
  proof -
    have c: "\<not> capacity (vdata (?V ! 1)) < vsize (?V ! 1)" by (simp add: three_vectors_def)
    from copy_assignment[OF w(2) w(2) len(2) dis(4), of int_like] nt c
    show ?thesis unfolding el by blast
  qed
  have E: "\<exists>e s'. Vector_assign (throwing_copy 2) 1 0 ?V ?S = (Inl e, ?V, s') \<and>
       wf (?V ! 1) s' \<and> elems (?V ! 1) s' = [7, 8] \<and> leaked s' = 0"
  proof -
    have "fst (Vector_assign (throwing_copy 2) 1 0 ?V ?S) = Inl (ElemThrow CopyCtor)" by code_simp
    then obtain vs' s' where
      f: "Vector_assign (throwing_copy 2) 1 0 ?V ?S = (Inl (ElemThrow CopyCtor), vs', s')"
      by (metis prod.collapse)
    have c: "capacity (vdata (?V ! 1)) < vsize (?V ! 0)" by (simp add: three_vectors_def)
    have l0: "leaked ?S = 0" by (simp add: three_blocks_def)
    from copy_assignment[OF w(2) w(1) len(2) dis(3), of "throwing_copy 2"] f c
    have "vs' = ?V \<and> wf (?V ! 1) s' \<and> elems (?V ! 1) s' = elems (?V ! 1) ?S \<and> leaked s' = leaked ?S"
      by blast
    then show ?thesis using f unfolding el l0 by blast
  qed
  from w nt el A B C D E show ?thesis by blast
qed

end
